theory Spec2Isabelle
  imports Complex_Main
begin

section \<open>CSR graphs\<close>

text \<open>
  Index types \<open>I\<close> of the kernels are modelled as \<open>nat\<close>, state and label arrays
  (which hold negative sentinels) as \<open>int list\<close>, arrays as lists. A kernel reads row
  \<open>i\<close> of the graph only through the loop
  \<^verbatim>\<open>for(I jj = Ap[i]; jj < Ap[i+1]; jj++){ const I j = Aj[jj]; ... }\<close>
  so a row is the list of positions \<open>jj\<close>, and its neighbours the entries of \<open>Aj\<close>
  at those positions, in stored order.
\<close>

definition csr_row :: "nat list \<Rightarrow> nat \<Rightarrow> nat list" where
  "csr_row Ap i = [Ap ! i ..< Ap ! (i + 1)]"

definition nbrs :: "nat list \<Rightarrow> nat list \<Rightarrow> nat \<Rightarrow> nat list" where
  "nbrs Ap Aj i = map (\<lambda>jj. Aj ! jj) (csr_row Ap i)"

text \<open>The CSR contract the kernels assume and never check.\<close>

definition csr_wf :: "nat \<Rightarrow> nat list \<Rightarrow> nat list \<Rightarrow> bool" where
  "csr_wf n Ap Aj \<longleftrightarrow>
     length Ap = n + 1 \<and>
     (\<forall>i \<in> set [0..<n]. Ap ! i \<le> Ap ! (i + 1)) \<and>
     Ap ! n \<le> length Aj \<and>
     (\<forall>i \<in> set [0..<n]. \<forall>j \<in> set (nbrs Ap Aj i). j < n)"

definition csr_symmetric :: "nat \<Rightarrow> nat list \<Rightarrow> nat list \<Rightarrow> bool" where
  "csr_symmetric n Ap Aj \<longleftrightarrow>
     (\<forall>i \<in> set [0..<n]. \<forall>j \<in> set (nbrs Ap Aj i). i \<in> set (nbrs Ap Aj j))"

section \<open>Bellman-Ford, one sweep\<close>

text \<open>
  The distance type \<open>T\<close> is any linearly ordered type with addition. The body of the
  inner loop of \<^verbatim>\<open>bellman_ford\<close> acts on the locals \<open>(xi, nci)\<close>; the arrays are
  written once per node, after its row.
\<close>

definition bellman_ford_edge ::
  "nat list \<Rightarrow> ('t::{plus,linorder}) list \<Rightarrow> 't list \<Rightarrow> int list \<Rightarrow> nat \<Rightarrow> 't \<times> int \<Rightarrow> 't \<times> int" where
  "bellman_ford_edge Aj Ax d cm jj = (\<lambda>(xi, nci).
     let j = Aj ! jj; dd = Ax ! jj + d ! j
     in if dd < xi then (dd, cm ! j) else (xi, nci))"

definition bellman_ford_node ::
  "nat list \<Rightarrow> nat list \<Rightarrow> ('t::{plus,linorder}) list \<Rightarrow> nat \<Rightarrow> 't list \<times> int list \<Rightarrow> 't list \<times> int list" where
  "bellman_ford_node Ap Aj Ax i = (\<lambda>(d, cm).
     let (xi, nci) = fold (bellman_ford_edge Aj Ax d cm) (csr_row Ap i) (d ! i, cm ! i)
     in (d[i := xi], cm[i := nci]))"

definition bellman_ford ::
  "nat \<Rightarrow> nat list \<Rightarrow> nat list \<Rightarrow> ('t::{plus,linorder}) list \<Rightarrow> 't list \<Rightarrow> int list \<Rightarrow> 't list \<times> int list" where
  "bellman_ford num_nodes Ap Aj Ax d cm = fold (bellman_ford_node Ap Aj Ax) [0..<num_nodes] (d, cm)"

section \<open>Maximal independent sets\<close>

text \<open>
  The loop \<^verbatim>\<open>for(jj ...){ j = Aj[jj]; if(x[j] == active) x[j] = F; }\<close>, shared by
  the serial and the parallel kernel.
\<close>

definition mark_neighbors :: "nat list \<Rightarrow> nat list \<Rightarrow> int \<Rightarrow> int \<Rightarrow> nat \<Rightarrow> int list \<Rightarrow> int list" where
  "mark_neighbors Ap Aj active F i x =
     fold (\<lambda>j x. if x ! j = active then x[j := F] else x) (nbrs Ap Aj i) x"

definition mis_serial_node ::
  "nat list \<Rightarrow> nat list \<Rightarrow> int \<Rightarrow> int \<Rightarrow> int \<Rightarrow> nat \<Rightarrow> nat \<times> int list \<Rightarrow> nat \<times> int list" where
  "mis_serial_node Ap Aj active C F i = (\<lambda>(N, x).
     if x ! i \<noteq> active then (N, x)
     else (N + 1, mark_neighbors Ap Aj active F i (x[i := C])))"

definition maximal_independent_set_serial ::
  "nat \<Rightarrow> nat list \<Rightarrow> nat list \<Rightarrow> int \<Rightarrow> int \<Rightarrow> int \<Rightarrow> int list \<Rightarrow> nat \<times> int list" where
  "maximal_independent_set_serial num_rows Ap Aj active C F x =
     fold (mis_serial_node Ap Aj active C F) [0..<num_rows] (0, x)"

text \<open>
  The first inner loop of the parallel kernel, with its two \<^verbatim>\<open>break\<close>s; it returns
  the state and the value of \<open>jj\<close> on exit, which the kernel compares with \<open>row_end\<close>.
  The weights \<open>y\<close> are of any linearly ordered type.
\<close>

function luby_scan ::
  "nat list \<Rightarrow> ('r::linorder) list \<Rightarrow> int \<Rightarrow> int \<Rightarrow> int \<Rightarrow> nat \<Rightarrow> nat \<Rightarrow> nat \<Rightarrow> int list \<Rightarrow> int list \<times> nat" where
  "luby_scan Aj y active C F i row_end jj x =
     (if jj < row_end then
        (let j = Aj ! jj; xj = x ! j in
         if xj = C then (x[i := F], jj)
         else if xj = active \<and> (y ! j > y ! i \<or> (y ! j = y ! i \<and> j > i)) then (x, jj)
         else luby_scan Aj y active C F i row_end (jj + 1) x)
      else (x, jj))"
  by pat_completeness auto
termination
  by (relation "measure (\<lambda>(Aj, y, active, C, F, i, row_end, jj, x). row_end - jj)") auto

declare luby_scan.simps [simp del]

definition luby_node ::
  "nat list \<Rightarrow> nat list \<Rightarrow> ('r::linorder) list \<Rightarrow> int \<Rightarrow> int \<Rightarrow> int \<Rightarrow> nat \<Rightarrow>
   nat \<times> int list \<times> bool \<Rightarrow> nat \<times> int list \<times> bool" where
  "luby_node Ap Aj y active C F i = (\<lambda>(N, x, active_nodes).
     if x ! i \<noteq> active then (N, x, active_nodes)
     else
       (let row_start = Ap ! i; row_end = Ap ! (i + 1);
            (x1, jj) = luby_scan Aj y active C F i row_end row_start x
        in if jj = row_end
           then (N + 1, (mark_neighbors Ap Aj active F i x1)[i := C], active_nodes)
           else (N, x1, True)))"

definition luby_sweep ::
  "nat \<Rightarrow> nat list \<Rightarrow> nat list \<Rightarrow> ('r::linorder) list \<Rightarrow> int \<Rightarrow> int \<Rightarrow> int \<Rightarrow>
   nat \<Rightarrow> int list \<Rightarrow> nat \<times> int list \<times> bool" where
  "luby_sweep num_rows Ap Aj y active C F N x =
     fold (luby_node Ap Aj y active C F) [0..<num_rows] (N, x, False)"

text \<open>
  The \<^verbatim>\<open>while\<close> loop of the parallel kernel. With \<open>max_iters = -1\<close> nothing bounds
  it, so it is a partial function: \<open>None\<close> is a run that never returns.
\<close>

partial_function (option) luby_loop ::
  "nat \<Rightarrow> nat list \<Rightarrow> nat list \<Rightarrow> ('r::linorder) list \<Rightarrow> int \<Rightarrow> int \<Rightarrow> int \<Rightarrow> int \<Rightarrow>
   int \<Rightarrow> bool \<Rightarrow> nat \<Rightarrow> int list \<Rightarrow> (nat \<times> int list) option" where
  "luby_loop num_rows Ap Aj y active C F max_iters num_iters active_nodes N x =
     (if active_nodes \<and> (max_iters = -1 \<or> num_iters < max_iters) then
        (case luby_sweep num_rows Ap Aj y active C F N x of
           (N', x', active_nodes') \<Rightarrow>
             luby_loop num_rows Ap Aj y active C F max_iters (num_iters + 1) active_nodes' N' x')
      else Some (N, x))"

declare luby_loop.simps [code]

definition maximal_independent_set_parallel ::
  "nat \<Rightarrow> nat list \<Rightarrow> nat list \<Rightarrow> int \<Rightarrow> int \<Rightarrow> int \<Rightarrow> int list \<Rightarrow> ('r::linorder) list \<Rightarrow> int \<Rightarrow>
   (nat \<times> int list) option" where
  "maximal_independent_set_parallel num_rows Ap Aj active C F x y max_iters =
     luby_loop num_rows Ap Aj y active C F max_iters 0 True 0 x"

text \<open>
  The vertices a call promoted: active before it, \<open>C\<close> after it. A set of vertices is
  independent when no member occurs in the row of another.
\<close>

definition promoted :: "int \<Rightarrow> int \<Rightarrow> int list \<Rightarrow> int list \<Rightarrow> nat list" where
  "promoted active C x x' = filter (\<lambda>u. x ! u = active \<and> x' ! u = C) [0..<length x]"

definition independent :: "nat list \<Rightarrow> nat list \<Rightarrow> nat list \<Rightarrow> bool" where
  "independent Ap Aj S \<longleftrightarrow> (\<forall>u \<in> set S. \<forall>v \<in> set S. u \<noteq> v \<longrightarrow> v \<notin> set (nbrs Ap Aj u))"

text \<open>The triangle graph on the vertices 0, 1, 2 (edges 0-1, 0-2, 1-2).\<close>

definition triangle_Ap :: "nat list" where
  "triangle_Ap = [0, 2, 4, 6]"

definition triangle_Aj :: "nat list" where
  "triangle_Aj = [1, 2, 0, 2, 0, 1]"

section \<open>Specification vocabulary\<close>

text \<open>
  What a kernel may do to the state array: an entry either keeps its value or goes
  from \<open>active\<close> to \<open>C\<close> or \<open>F\<close>.
\<close>

definition mis_frame :: "int \<Rightarrow> int \<Rightarrow> int \<Rightarrow> int list \<Rightarrow> int list \<Rightarrow> bool" where
  "mis_frame active C F x x' \<longleftrightarrow>
     length x' = length x \<and>
     (\<forall>u < length x. x' ! u = x ! u \<or> (x ! u = active \<and> (x' ! u = C \<or> x' ! u = F)))"

text \<open>The tie-broken order of the parallel kernel: \<open>j\<close> beats \<open>i\<close>.\<close>

definition outranks :: "('r::linorder) list \<Rightarrow> nat \<Rightarrow> nat \<Rightarrow> bool" where
  "outranks y j i \<longleftrightarrow> y ! j > y ! i \<or> (y ! j = y ! i \<and> j > i)"

definition active_set :: "int \<Rightarrow> int list \<Rightarrow> nat set" where
  "active_set active x = {u. u < length x \<and> x ! u = active}"

text \<open>Loop invariants of the two kernels, relative to the state \<open>x0\<close> of the call.\<close>

definition serial_inv ::
  "nat list \<Rightarrow> nat list \<Rightarrow> int \<Rightarrow> int \<Rightarrow> int \<Rightarrow> int list \<Rightarrow> int list \<Rightarrow> bool" where
  "serial_inv Ap Aj active C F x0 x \<longleftrightarrow>
     mis_frame active C F x0 x \<and>
     (\<forall>u \<in> set (promoted active C x0 x). \<forall>v \<in> set (nbrs Ap Aj u). x ! v \<noteq> active) \<and>
     independent Ap Aj (promoted active C x0 x)"

definition par_inv ::
  "nat list \<Rightarrow> nat list \<Rightarrow> int \<Rightarrow> int \<Rightarrow> int \<Rightarrow> int list \<Rightarrow> int list \<Rightarrow> bool" where
  "par_inv Ap Aj active C F x0 x \<longleftrightarrow>
     mis_frame active C F x0 x \<and> independent Ap Aj (promoted active C x0 x)"

text \<open>The path graph on the vertices 0..4 (edges 0-1, 1-2, 2-3, 3-4).\<close>

definition path5_Ap :: "nat list" where
  "path5_Ap = [0, 1, 3, 5, 7, 8]"

definition path5_Aj :: "nat list" where
  "path5_Aj = [1, 0, 2, 1, 3, 2, 4, 3]"

section \<open>Vertex colouring\<close>

text \<open>
  \<^verbatim>\<open>vertex_coloring_mis\<close>: \<^verbatim>\<open>std::fill(x, x + num_rows, -1)\<close>, then one serial maximal
  independent set per colour \<open>K\<close>, with the sentinels \<open>-1-K\<close>, \<open>K\<close>, \<open>-2-K\<close>. The
  \<^verbatim>\<open>while(N < num_rows)\<close> loop is a partial function.
\<close>

definition fill_rows :: "nat \<Rightarrow> int \<Rightarrow> int list \<Rightarrow> int list" where
  "fill_rows num_rows v x = replicate (min num_rows (length x)) v @ drop num_rows x"

partial_function (option) coloring_mis_loop ::
  "nat \<Rightarrow> nat list \<Rightarrow> nat list \<Rightarrow> nat \<Rightarrow> int \<Rightarrow> int list \<Rightarrow> (int \<times> int list) option" where
  "coloring_mis_loop num_rows Ap Aj N K x =
     (if N < num_rows then
        (case maximal_independent_set_serial num_rows Ap Aj (-1 - K) K (-2 - K) x of
           (c, x') \<Rightarrow> coloring_mis_loop num_rows Ap Aj (N + c) (K + 1) x')
      else Some (K, x))"

declare coloring_mis_loop.simps [code]

definition vertex_coloring_mis :: "nat \<Rightarrow> nat list \<Rightarrow> nat list \<Rightarrow> int list \<Rightarrow> (int \<times> int list) option" where
  "vertex_coloring_mis num_rows Ap Aj x = coloring_mis_loop num_rows Ap Aj 0 0 (fill_rows num_rows (-1) x)"

text \<open>
  \<^verbatim>\<open>vertex_coloring_first_fit\<close>. The mask is \<^verbatim>\<open>std::vector<bool> mask(K, false)\<close>; the
  new colour is the position of the first \<open>false\<close> in it, or its length \<open>K\<close>.
\<close>

definition first_fit_mask :: "nat list \<Rightarrow> nat list \<Rightarrow> int list \<Rightarrow> int \<Rightarrow> nat \<Rightarrow> bool list" where
  "first_fit_mask Ap Aj x K i =
     fold (\<lambda>j msk. if i = j then msk else if x ! j < 0 then msk else msk[nat (x ! j) := True])
       (nbrs Ap Aj i) (replicate (nat K) False)"

definition first_false :: "bool list \<Rightarrow> int" where
  "first_false msk = int (length (takeWhile (\<lambda>b. b) msk))"

definition first_fit_node :: "nat list \<Rightarrow> nat list \<Rightarrow> int \<Rightarrow> nat \<Rightarrow> int list \<Rightarrow> int list" where
  "first_fit_node Ap Aj K i x =
     (if x ! i \<noteq> K then x else x[i := first_false (first_fit_mask Ap Aj x K i)])"

definition vertex_coloring_first_fit :: "nat \<Rightarrow> nat list \<Rightarrow> nat list \<Rightarrow> int list \<Rightarrow> int \<Rightarrow> int list" where
  "vertex_coloring_first_fit num_rows Ap Aj x K = fold (first_fit_node Ap Aj K) [0..<num_rows] x"

text \<open>
  The colours of the coloured neighbours of \<open>i\<close> (other than \<open>i\<close>), and what it means
  for \<open>c\<close> to be the smallest colour in \<open>[0, K]\<close> outside a list of used colours.
\<close>

definition neighbor_colors :: "nat list \<Rightarrow> nat list \<Rightarrow> int list \<Rightarrow> nat \<Rightarrow> int list" where
  "neighbor_colors Ap Aj x i = map (\<lambda>j. x ! j) (filter (\<lambda>j. j \<noteq> i \<and> 0 \<le> x ! j) (nbrs Ap Aj i))"

definition smallest_free :: "int list \<Rightarrow> int \<Rightarrow> int \<Rightarrow> bool" where
  "smallest_free used K c \<longleftrightarrow>
     0 \<le> c \<and> c \<le> K \<and> c \<notin> set used \<and> (\<forall>c' \<in> set [0..<nat c]. int c' \<in> set used)"

definition colors_at_most :: "nat \<Rightarrow> int list \<Rightarrow> int \<Rightarrow> bool" where
  "colors_at_most n x K \<longleftrightarrow> (\<forall>i \<in> set [0..<n]. x ! i \<le> K)"

definition color_class_independent :: "nat \<Rightarrow> nat list \<Rightarrow> nat list \<Rightarrow> int list \<Rightarrow> int \<Rightarrow> bool" where
  "color_class_independent n Ap Aj x K \<longleftrightarrow>
     (\<forall>i \<in> set [0..<n]. \<forall>j \<in> set (nbrs Ap Aj i). i \<noteq> j \<and> x ! i = K \<longrightarrow> x ! j \<noteq> K)"

definition proper_coloring :: "nat \<Rightarrow> nat list \<Rightarrow> nat list \<Rightarrow> int list \<Rightarrow> bool" where
  "proper_coloring n Ap Aj x \<longleftrightarrow>
     (\<forall>i \<in> set [0..<n]. \<forall>j \<in> set (nbrs Ap Aj i). i \<noteq> j \<longrightarrow> x ! i \<noteq> x ! j)"

text \<open>The complete graph on the vertices 0..3.\<close>

definition K4_Ap :: "nat list" where
  "K4_Ap = [0, 3, 6, 9, 12]"

definition K4_Aj :: "nat list" where
  "K4_Aj = [1, 2, 3, 0, 2, 3, 0, 1, 3, 0, 1, 2]"

text \<open>Loop invariant of first-fit, relative to the colouring \<open>x\<close> of the call.\<close>

definition ff_inv :: "nat \<Rightarrow> nat list \<Rightarrow> nat list \<Rightarrow> int \<Rightarrow> int list \<Rightarrow> int list \<Rightarrow> bool" where
  "ff_inv n Ap Aj K x xc \<longleftrightarrow>
     length xc = n \<and>
     (\<forall>v < n. xc ! v = x ! v \<or> (x ! v = K \<and> smallest_free (neighbor_colors Ap Aj x v) K (xc ! v)))"

text \<open>Loop invariant of \<^verbatim>\<open>vertex_coloring_mis\<close>, and the vertices holding the value \<open>C\<close>.\<close>

definition C_set :: "nat \<Rightarrow> int \<Rightarrow> int list \<Rightarrow> nat set" where
  "C_set n C x = {v. v < n \<and> x ! v = C}"

definition col_inv :: "nat \<Rightarrow> nat list \<Rightarrow> nat list \<Rightarrow> nat \<Rightarrow> int \<Rightarrow> int list \<Rightarrow> bool" where
  "col_inv n Ap Aj N K x \<longleftrightarrow>
     length x = n \<and> 0 \<le> K \<and>
     (\<forall>v < n. (0 \<le> x ! v \<and> x ! v < K) \<or> x ! v = -1 - K) \<and>
     N = card {v. v < n \<and> 0 \<le> x ! v} \<and>
     (\<forall>i < n. \<forall>j \<in> set (nbrs Ap Aj i). i \<noteq> j \<and> 0 \<le> x ! i \<and> 0 \<le> x ! j \<longrightarrow> x ! i \<noteq> x ! j)"

section \<open>Errors\<close>

text \<open>
  An \<^verbatim>\<open>assert\<close> that fails aborts the call; compiled with \<^verbatim>\<open>NDEBUG\<close> it is not
  evaluated at all, which the flag \<open>ndebug\<close> models. An access outside an array is
  undefined behaviour in C++; where the index of an access depends on the data,
  the model checks it and reports \<open>OutOfBounds\<close>.
\<close>

datatype error = AssertionFailed | OutOfBounds

definition then_do :: "error + 'a \<Rightarrow> ('a \<Rightarrow> error + 'b) \<Rightarrow> error + 'b" where
  "then_do m f = (case m of Inl e \<Rightarrow> Inl e | Inr v \<Rightarrow> f v)"

definition assert_that :: "bool \<Rightarrow> error + bool \<Rightarrow> error + unit" where
  "assert_that ndebug e =
     (if ndebug then Inr ()
      else then_do e (\<lambda>b. if b then Inr () else Inl AssertionFailed))"

definition load :: "'a list \<Rightarrow> int \<Rightarrow> error + 'a" where
  "load xs i = (if 0 \<le> i \<and> i < int (length xs) then Inr (xs ! nat i) else Inl OutOfBounds)"

definition store :: "'a list \<Rightarrow> int \<Rightarrow> 'a \<Rightarrow> error + 'a list" where
  "store xs i v = (if 0 \<le> i \<and> i < int (length xs) then Inr (xs[nat i := v]) else Inl OutOfBounds)"

fun fold_result :: "('a \<Rightarrow> 's \<Rightarrow> error + 's) \<Rightarrow> 'a list \<Rightarrow> 's \<Rightarrow> error + 's" where
  "fold_result f [] s = Inr s"
| "fold_result f (x # xs) s = then_do (f x s) (fold_result f xs)"

section \<open>Cluster incidence\<close>

text \<open>
  The comparator handed to \<^verbatim>\<open>std::sort\<close>. It is a strict total order on node
  indices, so the sorted array is determined by it whatever algorithm sorts; the model
  sorts by insertion.
\<close>

definition cluster_cmp :: "int list \<Rightarrow> nat \<Rightarrow> nat \<Rightarrow> bool" where
  "cluster_cmp cm i j \<longleftrightarrow> cm ! i > cm ! j \<or> (cm ! i = cm ! j \<and> i > j)"

fun insert_by :: "('a \<Rightarrow> 'a \<Rightarrow> bool) \<Rightarrow> 'a \<Rightarrow> 'a list \<Rightarrow> 'a list" where
  "insert_by lt x [] = [x]"
| "insert_by lt x (y # ys) = (if lt y x then y # insert_by lt x ys else x # y # ys)"

definition sort_by :: "('a \<Rightarrow> 'a \<Rightarrow> bool) \<Rightarrow> 'a list \<Rightarrow> 'a list" where
  "sort_by lt xs = foldr (insert_by lt) xs []"

text \<open>
  The array \<open>ICi\<close> after \<^verbatim>\<open>for(i = 0; i < num_nodes; i++) ICi[i] = i;\<close> and
  \<^verbatim>\<open>std::sort\<close>. No later statement of \<^verbatim>\<open>cluster_node_incidence\<close> writes \<open>ICi\<close>.
\<close>

definition sorted_ICi :: "nat \<Rightarrow> int list \<Rightarrow> nat list" where
  "sorted_ICi num_nodes cm = sort_by (cluster_cmp cm) [0..<num_nodes]"

text \<open>
  \<^verbatim>\<open>cluster_node_incidence\<close>, for \<open>cm\<close> and \<open>ICi\<close> of length \<open>num_nodes\<close>. \<open>ICp0\<close>
  and \<open>L0\<close> are the output arrays \<open>ICp\<close> and \<open>L\<close> as the caller passes them (documented
  lengths \<open>num_clusters + 1\<close> and \<open>num_nodes\<close>); a write outside them is \<open>OutOfBounds\<close>.
  The body of the loop that builds \<open>ICp\<close>:
\<close>

definition ICp_step ::
  "bool \<Rightarrow> nat \<Rightarrow> int list \<Rightarrow> nat list \<Rightarrow> nat \<Rightarrow> nat \<times> int list \<Rightarrow> error + nat \<times> int list" where
  "ICp_step ndebug num_clusters cm ICi i = (\<lambda>(a, ICp).
     if cm ! (ICi ! i) \<noteq> int a then
       then_do (assert_that ndebug (Inr (a + 1 < num_clusters))) (\<lambda>_.
       then_do (store ICp (int (a + 1)) (int i)) (\<lambda>ICp'.
       Inr (a + 1, ICp')))
     else Inr (a, ICp))"

text \<open>The loops that build \<open>L\<close>: \<^verbatim>\<open>L[i] = m; i++; assert(i <= num_nodes);\<close>\<close>

definition L_inner :: "bool \<Rightarrow> nat \<Rightarrow> nat \<Rightarrow> nat \<times> int list \<Rightarrow> error + nat \<times> int list" where
  "L_inner ndebug num_nodes m = (\<lambda>(i, L).
     then_do (store L (int i) (int m)) (\<lambda>L'.
     then_do (assert_that ndebug (Inr (i + 1 \<le> num_nodes))) (\<lambda>_.
     Inr (i + 1, L'))))"

definition L_outer :: "bool \<Rightarrow> nat \<Rightarrow> int list \<Rightarrow> nat \<Rightarrow> nat \<times> int list \<Rightarrow> error + nat \<times> int list" where
  "L_outer ndebug num_nodes ICp a = (\<lambda>(i, L).
     let N = ICp ! (a + 1) - ICp ! a
     in fold_result (L_inner ndebug num_nodes) [0..<nat N] (i, L))"

text \<open>
  The two blocks of closing checks (\<^verbatim>\<open>asserts below for testing, could be deleted\<close>).
  Their reads \<^verbatim>\<open>a = cm[i]; m = L[a];\<close> and \<^verbatim>\<open>j = ICi[ICp[a] + m];\<close> feed the asserts
  and nothing else. Compiled with \<^verbatim>\<open>NDEBUG\<close> the asserts vanish, the values read are
  used by no statement and the blocks write nothing: they have no effect on the call,
  wherever the index of the read lies, and the model does not evaluate them. With
  asserts enabled the reads are checked.

  The first block: \<^verbatim>\<open>a = cm[i]; m = L[a];\<close> and three asserts.
\<close>

definition global_local_check ::
  "bool \<Rightarrow> nat \<Rightarrow> int list \<Rightarrow> int list \<Rightarrow> nat list \<Rightarrow> int list \<Rightarrow> nat \<Rightarrow> unit \<Rightarrow> error + unit" where
  "global_local_check ndebug num_clusters cm ICp ICi L i = (\<lambda>_.
     if ndebug then Inr ()
     else
       let a = cm ! i in
       then_do (load L a) (\<lambda>m.
       then_do (assert_that ndebug (Inr (0 \<le> a \<and> a < int num_clusters))) (\<lambda>_.
       then_do (assert_that ndebug (Inr (0 \<le> m \<and> m < ICp ! nat (a + 1) - ICp ! nat a))) (\<lambda>_.
       assert_that ndebug (then_do (load ICi (ICp ! nat a + m)) (\<lambda>g. Inr (int i = int g)))))))"

text \<open>
  The second block: \<^verbatim>\<open>I N = ICp[a];\<close> then, for \<open>m < N\<close>,
  \<^verbatim>\<open>j = ICi[ICp[a] + m];\<close> and three asserts.
\<close>

definition local_global_inner ::
  "bool \<Rightarrow> nat \<Rightarrow> int list \<Rightarrow> int list \<Rightarrow> nat list \<Rightarrow> int list \<Rightarrow> nat \<Rightarrow> nat \<Rightarrow> unit \<Rightarrow> error + unit" where
  "local_global_inner ndebug num_nodes cm ICp ICi L a m = (\<lambda>_.
     if ndebug then Inr ()
     else
       then_do (load ICi (ICp ! a + int m)) (\<lambda>j.
       then_do (assert_that ndebug (Inr (j < num_nodes))) (\<lambda>_.
       then_do (assert_that ndebug (Inr (int a = cm ! j))) (\<lambda>_.
       assert_that ndebug (Inr (int m = L ! j))))))"

definition local_global_check ::
  "bool \<Rightarrow> nat \<Rightarrow> int list \<Rightarrow> int list \<Rightarrow> nat list \<Rightarrow> int list \<Rightarrow> nat \<Rightarrow> unit \<Rightarrow> error + unit" where
  "local_global_check ndebug num_nodes cm ICp ICi L a = (\<lambda>_.
     let N = ICp ! a
     in fold_result (local_global_inner ndebug num_nodes cm ICp ICi L a) [0..<nat N] ())"

definition cluster_node_incidence ::
  "bool \<Rightarrow> nat \<Rightarrow> nat \<Rightarrow> int list \<Rightarrow> int list \<Rightarrow> int list \<Rightarrow> error + int list \<times> nat list \<times> int list" where
  "cluster_node_incidence ndebug num_nodes num_clusters cm ICp0 L0 =
     (let ICi = sorted_ICi num_nodes cm in
      then_do (store ICp0 0 0) (\<lambda>ICp1.
      then_do (fold_result (ICp_step ndebug num_clusters cm ICi) [0..<num_nodes] (0, ICp1)) (\<lambda>(a, ICp2).
      then_do (assert_that ndebug (Inr (a + 1 = num_clusters))) (\<lambda>_.
      then_do (store ICp2 (int (a + 1)) (int num_nodes)) (\<lambda>ICp.
      then_do (fold_result (L_outer ndebug num_nodes ICp) [0..<num_clusters] (0, L0)) (\<lambda>(i, L).
      then_do (assert_that ndebug (Inr (i = num_nodes))) (\<lambda>_.
      then_do (fold_result (global_local_check ndebug num_clusters cm ICp ICi L) [0..<num_nodes] ()) (\<lambda>_.
      then_do (fold_result (local_global_check ndebug num_nodes cm ICp ICi L) [0..<num_clusters] ()) (\<lambda>_.
      Inr (ICp, ICi, L))))))))))"

text \<open>The round trip between global and local node indices that the arrays are for.\<close>

definition incidence_round_trip ::
  "nat \<Rightarrow> nat \<Rightarrow> int list \<Rightarrow> int list \<Rightarrow> nat list \<Rightarrow> int list \<Rightarrow> bool" where
  "incidence_round_trip num_nodes num_clusters cm ICp ICi L \<longleftrightarrow>
     (\<forall>i \<in> set [0..<num_nodes]. ICi ! nat (ICp ! nat (cm ! i) + L ! i) = i) \<and>
     (\<forall>a \<in> set [0..<num_clusters]. \<forall>m \<in> set [0..<nat (ICp ! (a + 1) - ICp ! a)].
        cm ! (ICi ! nat (ICp ! a + int m)) = int a)"

section \<open>Balanced Bellman-Ford\<close>

text \<open>
  The state of \<^verbatim>\<open>bellman_ford_balanced\<close>: the arrays \<open>d\<close> and \<open>cm\<close> of the caller,
  the vectors \<open>predecessor\<close>, \<open>pred_count\<close> and \<open>cs\<close>, and the flag \<open>change\<close>.
\<close>

record 't bfb_state =
  dist :: "'t list"
  label :: "int list"
  predecessor :: "int list"
  pred_count :: "int list"
  cs :: "int list"
  change :: bool

text \<open>
  The vector of cluster sizes: \<^verbatim>\<open>if(cm[i] > -1) cs[cm[i]]++;\<close> for every node.
\<close>

definition count_cluster :: "int list \<Rightarrow> nat \<Rightarrow> int list \<Rightarrow> error + int list" where
  "count_cluster cm i sizes =
     (if cm ! i > -1
      then then_do (load sizes (cm ! i)) (\<lambda>s. store sizes (cm ! i) (s + 1))
      else Inr sizes)"

text \<open>The test of the inner loop, with the short-circuit order of the source.\<close>

definition bfb_switch :: "('t::{plus,linorder}) bfb_state \<Rightarrow> nat \<Rightarrow> nat \<Rightarrow> 't \<Rightarrow> error + bool" where
  "bfb_switch s i j new_d =
     (if new_d < dist s ! i then Inr True
      else if \<not> label s ! i > -1 then Inr False
      else if \<not> new_d = dist s ! i then Inr False
      else then_do (load (cs s) (label s ! j)) (\<lambda>sj.
           then_do (load (cs s) (label s ! i)) (\<lambda>si.
           Inr (sj < si \<and> pred_count s ! i = 0))))"

text \<open>The body of the inner loop, for the edge at position \<open>jj\<close> of row \<open>i\<close>.\<close>

definition bfb_edge ::
  "bool \<Rightarrow> nat list \<Rightarrow> ('t::{plus,linorder}) list \<Rightarrow> nat \<Rightarrow> nat \<Rightarrow> 't bfb_state \<Rightarrow> error + 't bfb_state" where
  "bfb_edge ndebug Aj Ax i jj s =
     (let j = Aj ! jj; new_d = Ax ! jj + dist s ! j in
      then_do (bfb_switch s i j new_d) (\<lambda>sw.
      if \<not> sw then Inr s
      else
        then_do (if label s ! i > -1
                 then then_do (load (cs s) (label s ! i)) (\<lambda>si.
                      then_do (store (cs s) (label s ! i) (si - 1)) (\<lambda>cs1.
                      then_do (assert_that ndebug (Inr (si - 1 \<ge> 0))) (\<lambda>_. Inr cs1)))
                 else Inr (cs s)) (\<lambda>cs1.
        then_do (load cs1 (label s ! j)) (\<lambda>sj.
        then_do (store cs1 (label s ! j) (sj + 1)) (\<lambda>cs2.
        then_do (if predecessor s ! i > -1
                 then then_do (load (pred_count s) (predecessor s ! i)) (\<lambda>p.
                      then_do (store (pred_count s) (predecessor s ! i) (p - 1)) (\<lambda>pc1.
                      then_do (assert_that ndebug (Inr (p - 1 \<ge> 0))) (\<lambda>_. Inr pc1)))
                 else Inr (pred_count s)) (\<lambda>pc1.
        Inr (s\<lparr>dist := (dist s)[i := new_d],
                label := (label s)[i := label s ! j],
                predecessor := (predecessor s)[i := int j],
                pred_count := pc1[j := pc1 ! j + 1],
                cs := cs2,
                change := True\<rparr>)))))))"

definition bfb_node ::
  "bool \<Rightarrow> nat list \<Rightarrow> nat list \<Rightarrow> ('t::{plus,linorder}) list \<Rightarrow> nat \<Rightarrow> 't bfb_state \<Rightarrow> error + 't bfb_state" where
  "bfb_node ndebug Ap Aj Ax i s = fold_result (bfb_edge ndebug Aj Ax i) (csr_row Ap i) s"

definition bfb_sweep ::
  "bool \<Rightarrow> nat \<Rightarrow> nat list \<Rightarrow> nat list \<Rightarrow> ('t::{plus,linorder}) list \<Rightarrow> 't bfb_state \<Rightarrow> error + 't bfb_state" where
  "bfb_sweep ndebug num_nodes Ap Aj Ax s =
     fold_result (bfb_node ndebug Ap Aj Ax) [0..<num_nodes] (s\<lparr>change := False\<rparr>)"

text \<open>
  The \<^verbatim>\<open>do ... while(change)\<close> loop with its safety check
  \<^verbatim>\<open>assert(++iteration < num_nodes*num_nodes*num_nodes)\<close>. Compiled with \<^verbatim>\<open>NDEBUG\<close>
  the check and its increment vanish and nothing bounds the loop, so it is a partial
  function: \<open>None\<close> is a run that never returns, \<open>Some (Inl e)\<close> an aborted one.
\<close>

partial_function (option) bfb_loop ::
  "bool \<Rightarrow> nat \<Rightarrow> nat list \<Rightarrow> nat list \<Rightarrow> ('t::{plus,linorder}) list \<Rightarrow> nat \<Rightarrow> 't bfb_state \<Rightarrow>
   (error + 't bfb_state) option" where
  "bfb_loop ndebug num_nodes Ap Aj Ax iteration s =
     (case bfb_sweep ndebug num_nodes Ap Aj Ax s of
        Inl e \<Rightarrow> Some (Inl e)
      | Inr s' \<Rightarrow>
          if ndebug then
            (if change s' then bfb_loop ndebug num_nodes Ap Aj Ax iteration s' else Some (Inr s'))
          else if \<not> iteration + 1 < num_nodes * num_nodes * num_nodes then Some (Inl AssertionFailed)
          else if change s' then bfb_loop ndebug num_nodes Ap Aj Ax (iteration + 1) s'
          else Some (Inr s'))"

declare bfb_loop.simps [code]

definition bellman_ford_balanced ::
  "bool \<Rightarrow> nat \<Rightarrow> nat \<Rightarrow> nat list \<Rightarrow> nat list \<Rightarrow> ('t::{plus,linorder}) list \<Rightarrow> 't list \<Rightarrow> int list \<Rightarrow>
   (error + 't list \<times> int list) option" where
  "bellman_ford_balanced ndebug num_nodes num_clusters Ap Aj Ax d cm =
     (case fold_result (count_cluster cm) [0..<num_nodes] (replicate num_clusters 0) of
        Inl e \<Rightarrow> Some (Inl e)
      | Inr sizes \<Rightarrow>
          (case bfb_loop ndebug num_nodes Ap Aj Ax 0
                  \<lparr>dist = d, label = cm, predecessor = replicate num_nodes (-1),
                   pred_count = replicate num_nodes 0, cs = sizes, change = False\<rparr> of
             None \<Rightarrow> None
           | Some (Inl e) \<Rightarrow> Some (Inl e)
           | Some (Inr s) \<Rightarrow> Some (Inr (dist s, label s))))"

text \<open>The path graph on the vertices 0, 1, 2 (edges 0-1, 1-2) with unit weights.\<close>

definition path3_Ap :: "nat list" where
  "path3_Ap = [0, 1, 3, 4]"

definition path3_Aj :: "nat list" where
  "path3_Aj = [1, 0, 2, 1]"

definition path3_Ax :: "int list" where
  "path3_Ax = [1, 1, 1, 1]"

text \<open>The state in which the sweeps over that path cycle.\<close>

definition path3_cycle :: "int bfb_state" where
  "path3_cycle = \<lparr>dist = [0, 1, 0], label = [0, 1, 1], predecessor = [-1, 2, -1],
                  pred_count = [0, 0, 1], cs = [1, 2], change = True\<rparr>"

section \<open>Walks and distances\<close>

text \<open>
  \<open>walk Ap Aj k u v\<close>: a walk of exactly \<open>k\<close> edges leads from \<open>u\<close> to \<open>v\<close>. The
  unweighted distance from \<open>u\<close> to \<open>v\<close> is at most \<open>k\<close> when \<open>within_steps Ap Aj k u v\<close>,
  and it is \<open>l\<close> when a walk of \<open>l\<close> edges exists and no shorter one.
\<close>

primrec walk :: "nat list \<Rightarrow> nat list \<Rightarrow> nat \<Rightarrow> nat \<Rightarrow> nat \<Rightarrow> bool" where
  "walk Ap Aj 0 u v \<longleftrightarrow> u = v"
| "walk Ap Aj (Suc k) u v \<longleftrightarrow> (\<exists>w \<in> set (nbrs Ap Aj u). walk Ap Aj k w v)"

definition within_steps :: "nat list \<Rightarrow> nat list \<Rightarrow> nat \<Rightarrow> nat \<Rightarrow> nat \<Rightarrow> bool" where
  "within_steps Ap Aj k u v \<longleftrightarrow> (\<exists>m \<in> set [0..<Suc k]. walk Ap Aj m u v)"

definition reachable :: "nat list \<Rightarrow> nat list \<Rightarrow> nat \<Rightarrow> nat \<Rightarrow> bool" where
  "reachable Ap Aj u v \<longleftrightarrow> (\<exists>m. walk Ap Aj m u v)"

definition distance_is :: "nat list \<Rightarrow> nat list \<Rightarrow> nat \<Rightarrow> nat \<Rightarrow> int \<Rightarrow> bool" where
  "distance_is Ap Aj u v l \<longleftrightarrow>
     0 \<le> l \<and> walk Ap Aj (nat l) u v \<and> (\<forall>m \<in> set [0..<nat l]. \<not> walk Ap Aj m u v)"

section \<open>Breadth-first search\<close>

text \<open>
  The state of the search is \<open>(order, level, N)\<close>. The inner statement visits a
  neighbour \<open>j\<close>; the middle loop runs over the row of \<open>i = order[ii]\<close>; the
  \<^verbatim>\<open>while(level_begin < level_end)\<close> loop is a partial function.
\<close>

definition bfs_visit :: "int \<Rightarrow> nat \<Rightarrow> nat list \<times> int list \<times> nat \<Rightarrow> nat list \<times> int list \<times> nat" where
  "bfs_visit current_level j = (\<lambda>(order, level, N).
     if level ! j = -1 then (order[N := j], level[j := current_level], N + 1)
     else (order, level, N))"

definition bfs_node ::
  "nat list \<Rightarrow> nat list \<Rightarrow> int \<Rightarrow> nat \<Rightarrow> nat list \<times> int list \<times> nat \<Rightarrow> nat list \<times> int list \<times> nat" where
  "bfs_node Ap Aj current_level ii = (\<lambda>(order, level, N).
     fold (bfs_visit current_level) (nbrs Ap Aj (order ! ii)) (order, level, N))"

partial_function (option) bfs_loop ::
  "nat list \<Rightarrow> nat list \<Rightarrow> nat \<Rightarrow> nat \<Rightarrow> int \<Rightarrow> nat list \<times> int list \<times> nat \<Rightarrow> (nat list \<times> int list) option" where
  "bfs_loop Ap Aj level_begin level_end current_level s =
     (if level_begin < level_end then
        (case fold (bfs_node Ap Aj current_level) [level_begin..<level_end] s of
           (order, level, N) \<Rightarrow> bfs_loop Ap Aj level_end N (current_level + 1) (order, level, N))
      else Some (fst s, fst (snd s)))"

declare bfs_loop.simps [code]

definition breadth_first_search ::
  "nat list \<Rightarrow> nat list \<Rightarrow> nat \<Rightarrow> nat list \<Rightarrow> int list \<Rightarrow> (nat list \<times> int list) option" where
  "breadth_first_search Ap Aj seed order level =
     bfs_loop Ap Aj 0 1 1 (order[0 := seed], level[seed := 0], 1)"

text \<open>
  What the search establishes, for the arrays \<open>order\<close> before and \<open>order'\<close>, \<open>level'\<close>
  after the call; \<open>R\<close> is the number of vertices reached.
\<close>

definition bfs_levels :: "nat \<Rightarrow> nat list \<Rightarrow> nat list \<Rightarrow> nat \<Rightarrow> int list \<Rightarrow> bool" where
  "bfs_levels n Ap Aj seed level' \<longleftrightarrow>
     (\<forall>j \<in> set [0..<n].
        if reachable Ap Aj seed j then distance_is Ap Aj seed j (level' ! j) else level' ! j = -1)"

definition reached_count :: "nat \<Rightarrow> int list \<Rightarrow> nat" where
  "reached_count n level' = length (filter (\<lambda>j. level' ! j \<noteq> -1) [0..<n])"

definition bfs_order :: "nat \<Rightarrow> nat list \<Rightarrow> nat list \<Rightarrow> nat \<Rightarrow> nat list \<Rightarrow> nat list \<Rightarrow> int list \<Rightarrow> bool" where
  "bfs_order n Ap Aj seed order order' level' \<longleftrightarrow>
     (let R = reached_count n level' in
      distinct (take R order') \<and>
      set (take R order') = {j. j < n \<and> reachable Ap Aj seed j} \<and>
      drop R order' = drop R order)"

text \<open>Two isolated vertices, and the graph of scenario S4 (edges 0-1, 0-2, 2-3).\<close>

definition isolated2_Ap :: "nat list" where
  "isolated2_Ap = [0, 0, 0]"

definition isolated2_Aj :: "nat list" where
  "isolated2_Aj = []"

definition tree4_Ap :: "nat list" where
  "tree4_Ap = [0, 2, 3, 5, 6]"

definition tree4_Aj :: "nat list" where
  "tree4_Aj = [1, 2, 0, 0, 3, 2]"

text \<open>Invariants of the search: of every visit, of the outer loop, and on exit.\<close>

definition bfs_basic :: "nat \<Rightarrow> nat list \<times> int list \<times> nat \<Rightarrow> bool" where
  "bfs_basic n = (\<lambda>(order, level, N).
     length order = n \<and> length level = n \<and> N \<le> n \<and> distinct (take N order) \<and>
     set (take N order) = {v. v < n \<and> level ! v \<noteq> -1})"

definition bfs_inv ::
  "nat \<Rightarrow> nat list \<Rightarrow> nat list \<Rightarrow> nat \<Rightarrow> nat \<Rightarrow> nat \<Rightarrow> nat \<Rightarrow> nat list \<times> int list \<times> nat \<Rightarrow> bool" where
  "bfs_inv n Ap Aj seed k b e = (\<lambda>(order, level, N).
     bfs_basic n (order, level, N) \<and> 1 \<le> k \<and> b \<le> e \<and> e = N \<and>
     (\<forall>v < n. level ! v \<noteq> -1 \<longrightarrow> distance_is Ap Aj seed v (level ! v) \<and> level ! v < int k) \<and>
     (\<forall>v < n. within_steps Ap Aj (k - 1) seed v \<longrightarrow> level ! v \<noteq> -1) \<and>
     (\<forall>v < n. level ! v = int k - 1 \<longleftrightarrow> (\<exists>p. b \<le> p \<and> p < e \<and> order ! p = v)) \<and>
     (\<forall>w < n. level ! w \<noteq> -1 \<and> level ! w < int k - 1 \<longrightarrow> (\<forall>v \<in> set (nbrs Ap Aj w). level ! v \<noteq> -1)))"

definition bfs_final ::
  "nat \<Rightarrow> nat list \<Rightarrow> nat list \<Rightarrow> nat \<Rightarrow> nat list \<Rightarrow> nat \<Rightarrow> nat list \<times> int list \<times> nat \<Rightarrow> bool" where
  "bfs_final n Ap Aj seed order N = (\<lambda>(order', level', N').
     bfs_basic n (order', level', N') \<and> N \<le> N' \<and>
     (\<forall>p \<ge> N'. order' ! p = order ! p) \<and>
     level' ! seed \<noteq> -1 \<and>
     (\<forall>v < n. level' ! v \<noteq> -1 \<longrightarrow> distance_is Ap Aj seed v (level' ! v)) \<and>
     (\<forall>w < n. level' ! w \<noteq> -1 \<longrightarrow> (\<forall>v \<in> set (nbrs Ap Aj w). level' ! v \<noteq> -1)))"

section \<open>Distance-k maximal independent sets\<close>

text \<open>
  \<^verbatim>\<open>csr_propagate_max\<close>: the body of the inner loop acts on the locals
  \<open>(k_max, v_max)\<close>; the output arrays are written once per vertex. Values are of any
  linearly ordered type.
\<close>

definition propagate_edge :: "nat list \<Rightarrow> ('r::linorder) list \<Rightarrow> nat \<Rightarrow> nat \<times> 'r \<Rightarrow> nat \<times> 'r" where
  "propagate_edge i_keys i_vals j = (\<lambda>(k_max, v_max).
     let k_j = i_keys ! j; v_j = i_vals ! j in
     if k_j = k_max then (k_max, v_max)
     else if v_j < v_max then (k_max, v_max)
     else if v_j > v_max \<or> k_j > k_max then (k_j, v_j)
     else (k_max, v_max))"

definition propagate_node ::
  "nat list \<Rightarrow> nat list \<Rightarrow> nat list \<Rightarrow> ('r::linorder) list \<Rightarrow> nat \<Rightarrow> nat list \<times> 'r list \<Rightarrow> nat list \<times> 'r list" where
  "propagate_node Ap Aj i_keys i_vals i = (\<lambda>(o_keys, o_vals).
     let (k_max, v_max) = fold (propagate_edge i_keys i_vals) (nbrs Ap Aj i) (i_keys ! i, i_vals ! i)
     in (o_keys[i := k_max], o_vals[i := v_max]))"

definition csr_propagate_max ::
  "nat \<Rightarrow> nat list \<Rightarrow> nat list \<Rightarrow> nat list \<Rightarrow> nat list \<Rightarrow> ('r::linorder) list \<Rightarrow> 'r list \<Rightarrow> nat list \<times> 'r list" where
  "csr_propagate_max num_rows Ap Aj i_keys o_keys i_vals o_vals =
     fold (propagate_node Ap Aj i_keys i_vals) [0..<num_rows] (o_keys, o_vals)"

text \<open>
  The vectors of \<^verbatim>\<open>maximal_independent_set_k_parallel\<close> and the array \<open>x\<close>. The
  values \<open>R\<close> are modelled as reals; \<^verbatim>\<open>i_vals[i] = x[i]\<close> converts.
\<close>

record misk_state =
  mk_active :: "bool list"
  mk_i_keys :: "nat list"
  mk_o_keys :: "nat list"
  mk_i_vals :: "real list"
  mk_o_vals :: "real list"
  mk_x :: "int list"

text \<open>One call of \<^verbatim>\<open>csr_propagate_max\<close> followed by the two \<^verbatim>\<open>std::swap\<close>s.\<close>

definition propagate_swap :: "nat \<Rightarrow> nat list \<Rightarrow> nat list \<Rightarrow> misk_state \<Rightarrow> misk_state" where
  "propagate_swap num_rows Ap Aj s =
     (let (ok, ov) = csr_propagate_max num_rows Ap Aj (mk_i_keys s) (mk_o_keys s) (mk_i_vals s) (mk_o_vals s)
      in s\<lparr>mk_i_keys := ok, mk_o_keys := mk_i_keys s, mk_i_vals := ov, mk_o_vals := mk_i_vals s\<rparr>)"

text \<open>The loop that promotes the local maxima, and the loop that retires their balls.\<close>

definition misk_select :: "nat \<Rightarrow> misk_state \<Rightarrow> misk_state" where
  "misk_select i s =
     (let x' = (if mk_i_keys s ! i = i \<and> mk_active s ! i then (mk_x s)[i := 1] else mk_x s)
      in s\<lparr>mk_x := x', mk_i_keys := (mk_i_keys s)[i := i], mk_i_vals := (mk_i_vals s)[i := real_of_int (x' ! i)]\<rparr>)"

definition misk_retire :: "real list \<Rightarrow> nat \<Rightarrow> misk_state \<times> bool \<Rightarrow> misk_state \<times> bool" where
  "misk_retire y i = (\<lambda>(s, work_left).
     if mk_i_vals s ! i = 1
     then (s\<lparr>mk_active := (mk_active s)[i := False], mk_i_vals := (mk_i_vals s)[i := -1],
             mk_i_keys := (mk_i_keys s)[i := i]\<rparr>, work_left)
     else (s\<lparr>mk_i_vals := (mk_i_vals s)[i := y ! i], mk_i_keys := (mk_i_keys s)[i := i]\<rparr>, True))"

definition misk_round ::
  "nat \<Rightarrow> nat list \<Rightarrow> nat list \<Rightarrow> nat \<Rightarrow> real list \<Rightarrow> misk_state \<Rightarrow> misk_state \<times> bool" where
  "misk_round num_rows Ap Aj k y s =
     (let s1 = (propagate_swap num_rows Ap Aj ^^ k) s;
          s2 = fold misk_select [0..<num_rows] s1;
          s3 = (propagate_swap num_rows Ap Aj ^^ k) s2
      in fold (misk_retire y) [0..<num_rows] (s3, False))"

text \<open>
  The outer \<^verbatim>\<open>for(iter = 0; max_iters == -1 || iter < max_iters; iter++)\<close> with its
  \<^verbatim>\<open>return\<close>; a partial function, since nothing bounds it when \<open>max_iters = -1\<close>.
\<close>

partial_function (option) misk_loop ::
  "nat \<Rightarrow> nat list \<Rightarrow> nat list \<Rightarrow> nat \<Rightarrow> real list \<Rightarrow> int \<Rightarrow> int \<Rightarrow> misk_state \<Rightarrow> int list option" where
  "misk_loop num_rows Ap Aj k y max_iters iter s =
     (if max_iters = -1 \<or> iter < max_iters then
        (case misk_round num_rows Ap Aj k y s of
           (s', work_left) \<Rightarrow>
             if \<not> work_left then Some (mk_x s')
             else misk_loop num_rows Ap Aj k y max_iters (iter + 1) s')
      else Some (mk_x s))"

declare misk_loop.simps [code]

definition misk_init :: "nat \<Rightarrow> int list \<Rightarrow> real list \<Rightarrow> misk_state" where
  "misk_init num_rows x y =
     \<lparr>mk_active = replicate num_rows True,
      mk_i_keys = [0..<num_rows], mk_o_keys = replicate num_rows 0,
      mk_i_vals = map (\<lambda>i. y ! i) [0..<num_rows], mk_o_vals = replicate num_rows 0,
      mk_x = fill_rows num_rows 0 x\<rparr>"

definition maximal_independent_set_k_parallel ::
  "nat \<Rightarrow> nat list \<Rightarrow> nat list \<Rightarrow> nat \<Rightarrow> int list \<Rightarrow> real list \<Rightarrow> int \<Rightarrow> int list option" where
  "maximal_independent_set_k_parallel num_rows Ap Aj k x y max_iters =
     misk_loop num_rows Ap Aj k y max_iters 0 (misk_init num_rows x y)"

text \<open>Promoted vertices are pairwise more than \<open>k\<close> steps apart.\<close>

definition k_separated :: "nat \<Rightarrow> nat list \<Rightarrow> nat list \<Rightarrow> nat \<Rightarrow> int list \<Rightarrow> bool" where
  "k_separated n Ap Aj k x \<longleftrightarrow>
     (\<forall>u \<in> set [0..<n]. \<forall>v \<in> set [0..<n].
        u \<noteq> v \<and> x ! u = 1 \<and> x ! v = 1 \<longrightarrow> \<not> within_steps Ap Aj k u v)"

text \<open>
  The order that \<^verbatim>\<open>csr_propagate_max\<close> maximises, on keys whose value is \<open>base key\<close>:
  by value, equal values by key. Then the invariants of the distance-k kernel.
\<close>

definition better :: "(nat \<Rightarrow> 'r::linorder) \<Rightarrow> nat \<Rightarrow> nat \<Rightarrow> bool" where
  "better base a b \<longleftrightarrow> base b < base a \<or> (base b = base a \<and> b \<le> a)"

definition ball_best :: "nat \<Rightarrow> nat list \<Rightarrow> nat list \<Rightarrow> (nat \<Rightarrow> real) \<Rightarrow> nat \<Rightarrow> misk_state \<Rightarrow> bool" where
  "ball_best n Ap Aj base t s \<longleftrightarrow>
     length (mk_i_keys s) = n \<and> length (mk_i_vals s) = n \<and>
     length (mk_o_keys s) = n \<and> length (mk_o_vals s) = n \<and>
     (\<forall>i < n. mk_i_keys s ! i < n \<and> within_steps Ap Aj t i (mk_i_keys s ! i) \<and>
        mk_i_vals s ! i = base (mk_i_keys s ! i) \<and>
        (\<forall>w. within_steps Ap Aj t i w \<longrightarrow> better base (mk_i_keys s ! i) w))"

definition misk_inv :: "nat \<Rightarrow> nat list \<Rightarrow> nat list \<Rightarrow> nat \<Rightarrow> misk_state \<Rightarrow> bool" where
  "misk_inv n Ap Aj k s \<longleftrightarrow>
     length (mk_active s) = n \<and> length (mk_x s) = n \<and>
     length (mk_i_keys s) = n \<and> length (mk_i_vals s) = n \<and>
     length (mk_o_keys s) = n \<and> length (mk_o_vals s) = n \<and>
     (\<forall>i < n. mk_i_keys s ! i = i) \<and>
     (\<forall>i < n. mk_x s ! i = 0 \<or> mk_x s ! i = 1) \<and>
     (\<forall>u < n. \<forall>v < n. mk_x s ! u = 1 \<and> within_steps Ap Aj k v u \<longrightarrow> \<not> mk_active s ! v) \<and>
     k_separated n Ap Aj k (mk_x s)"


text \<open>
  What makes the distance-k kernel return: an active vertex carries its value of \<open>y\<close>, a
  retired one carries \<open>-1\<close> and has a promoted vertex within \<open>k\<close> steps.
\<close>

definition misk_live :: "nat \<Rightarrow> nat list \<Rightarrow> nat list \<Rightarrow> nat \<Rightarrow> real list \<Rightarrow> misk_state \<Rightarrow> bool" where
  "misk_live n Ap Aj k y s \<longleftrightarrow>
     (\<forall>i < n. mk_i_vals s ! i = (if mk_active s ! i then y ! i else -1)) \<and>
     (\<forall>v < n. \<not> mk_active s ! v \<longrightarrow> (\<exists>u < n. mk_x s ! u = 1 \<and> within_steps Ap Aj k v u))"

section \<open>Properties of the Bellman-Ford sweep\<close>

lemma bellman_ford_edges_le:
  "fst (fold (bellman_ford_edge Aj Ax d cm) js (xi, nci)) \<le> xi"
proof (induction js arbitrary: xi nci)
  case Nil
  show ?case by simp
next
  case (Cons jj js)
  obtain xi' nci' where s: "bellman_ford_edge Aj Ax d cm jj (xi, nci) = (xi', nci')"
    by (cases "bellman_ford_edge Aj Ax d cm jj (xi, nci)")
  then have "xi' \<le> xi"
    by (auto simp: bellman_ford_edge_def Let_def split: if_splits)
  moreover have "fst (fold (bellman_ford_edge Aj Ax d cm) js (xi', nci')) \<le> xi'"
    by (rule Cons.IH)
  ultimately show ?case using s by simp
qed

lemma bellman_ford_node_le:
  assumes "bellman_ford_node Ap Aj Ax i (d, cm) = (d', cm')"
  shows "length d' = length d \<and> (\<forall>v < length d. d' ! v \<le> d ! v)"
proof -
  obtain xi nci where f: "fold (bellman_ford_edge Aj Ax d cm) (csr_row Ap i) (d ! i, cm ! i) = (xi, nci)"
    by (cases "fold (bellman_ford_edge Aj Ax d cm) (csr_row Ap i) (d ! i, cm ! i)")
  have "xi \<le> d ! i"
    using bellman_ford_edges_le [of Aj Ax d cm "csr_row Ap i" "d ! i" "cm ! i"] f by simp
  moreover have "d' = d[i := xi]"
    using assms f by (simp add: bellman_ford_node_def)
  ultimately show ?thesis
    by (cases "i < length d") (simp_all add: nth_list_update)
qed

lemma bellman_ford_nodes_le:
  assumes "fold (bellman_ford_node Ap Aj Ax) ns (d, cm) = (d', cm')"
  shows "length d' = length d \<and> (\<forall>v < length d. d' ! v \<le> d ! v)"
  using assms
proof (induction ns arbitrary: d cm)
  case Nil
  then show ?case by simp
next
  case (Cons i ns)
  obtain d1 cm1 where s: "bellman_ford_node Ap Aj Ax i (d, cm) = (d1, cm1)"
    by (cases "bellman_ford_node Ap Aj Ax i (d, cm)")
  from bellman_ford_node_le [OF s]
  have a: "length d1 = length d" and b: "\<forall>v < length d. d1 ! v \<le> d ! v" by simp_all
  from Cons.prems s have "fold (bellman_ford_node Ap Aj Ax) ns (d1, cm1) = (d', cm')" by simp
  from Cons.IH [OF this]
  have c: "length d' = length d1" and e: "\<forall>v < length d1. d' ! v \<le> d1 ! v" by simp_all
  show ?case using a b c e by (auto intro: order_trans)
qed

text \<open>
  Claim C10. One call of \<^verbatim>\<open>bellman_ford\<close> never increases a distance: for every
  graph, edge weights, distance array and cluster labels, each entry of \<open>d\<close> after the
  call is at most its value before the call (and the array keeps its length).
\<close>

theorem bellman_ford_never_increases:
  assumes "i < length d"
  shows "fst (bellman_ford num_nodes Ap Aj Ax d cm) ! i \<le> d ! i"
proof -
  obtain d' cm' where r: "bellman_ford num_nodes Ap Aj Ax d cm = (d', cm')"
    by (cases "bellman_ford num_nodes Ap Aj Ax d cm")
  then have "fold (bellman_ford_node Ap Aj Ax) [0..<num_nodes] (d, cm) = (d', cm')"
    by (simp add: bellman_ford_def)
  from bellman_ford_nodes_le [OF this] assms r show ?thesis by simp
qed

theorem bellman_ford_never_increases_witness:
  "(1::nat) < length [0, 9, 9 :: int] \<and>
   fst (bellman_ford 3 [0, 1, 3, 4] [1, 0, 2, 1] [1, 1, 1, 1 :: int] [0, 9, 9] [0, -1, -1]) ! 1 \<le> [0, 9, 9 :: int] ! 1 \<and>
   bellman_ford 3 [0, 1, 3, 4] [1, 0, 2, 1] [1, 1, 1, 1 :: int] [0, 9, 9] [0, -1, -1] = ([0, 1, 2], [0, 0, 0])"
proof -
  have h: "(1::nat) < length [0, 9, 9 :: int]" by simp
  have e: "bellman_ford 3 [0, 1, 3, 4] [1, 0, 2, 1] [1, 1, 1, 1 :: int] [0, 9, 9] [0, -1, -1] = ([0, 1, 2], [0, 0, 0])"
    by code_simp
  show ?thesis
    using h e bellman_ford_never_increases [OF h, of 3 "[0, 1, 3, 4]" "[1, 0, 2, 1]" "[1, 1, 1, 1]" "[0, -1, -1]"]
    by simp
qed

section \<open>Independence of the maximal independent sets\<close>


lemma nth_list_update_total:
  "xs[i := v] ! j = (if i = j \<and> i < length xs then v else xs ! j)"
  by (cases "i < length xs") (auto simp: nth_list_update list_update_beyond not_less)

lemma mark_fold_length:
  "length (fold (\<lambda>j x. if x ! j = a then x[j := F] else x) js x) = length x"
  by (induction js arbitrary: x) auto

lemma mark_fold_nth:
  assumes "a \<noteq> F" and "v < length x"
  shows "fold (\<lambda>j x. if x ! j = a then x[j := F] else x) js x ! v =
         (if v \<in> set js \<and> x ! v = a then F else x ! v)"
  using assms(2)
proof (induction js arbitrary: x)
  case Nil
  show ?case by simp
next
  case (Cons j js)
  let ?g = "\<lambda>j x. if x ! j = a then x[j := F] else x"
  let ?x1 = "?g j x"
  have l: "v < length ?x1" using Cons.prems by simp
  have "fold ?g (j # js) x ! v = fold ?g js ?x1 ! v" by simp
  also have "\<dots> = (if v \<in> set js \<and> ?x1 ! v = a then F else ?x1 ! v)"
    by (rule Cons.IH [OF l])
  also have "\<dots> = (if v \<in> set (j # js) \<and> x ! v = a then F else x ! v)"
    using assms(1) Cons.prems by (auto simp: nth_list_update_total)
  finally show ?case .
qed

lemma mark_neighbors_length [simp]:
  "length (mark_neighbors Ap Aj active F i x) = length x"
  by (simp add: mark_neighbors_def mark_fold_length)

lemma mark_neighbors_nth:
  assumes "active \<noteq> F" and "v < length x"
  shows "mark_neighbors Ap Aj active F i x ! v =
         (if v \<in> set (nbrs Ap Aj i) \<and> x ! v = active then F else x ! v)"
  unfolding mark_neighbors_def by (rule mark_fold_nth [OF assms])

lemma mis_frame_refl: "mis_frame active C F x x"
  by (simp add: mis_frame_def)

lemma mis_frame_trans:
  assumes "active \<noteq> C" "active \<noteq> F" "mis_frame active C F x0 x" "mis_frame active C F x x'"
  shows "mis_frame active C F x0 x'"
  using assms unfolding mis_frame_def by (metis)

lemma mis_frame_active:
  assumes "active \<noteq> C" "active \<noteq> F" "mis_frame active C F x x'" "u < length x" "x' ! u = active"
  shows "x ! u = active"
  using assms unfolding mis_frame_def by metis

lemma mis_frame_C:
  assumes "C \<noteq> F" "mis_frame active C F x x'" "u < length x" "x ! u = C" "active \<noteq> C"
  shows "x' ! u = C"
  using assms unfolding mis_frame_def by metis


lemma nbrs_in_range:
  assumes "csr_wf n Ap Aj" "i < n" "j \<in> set (nbrs Ap Aj i)"
  shows "j < n"
  using assms unfolding csr_wf_def by auto

lemma nbrs_sym:
  assumes "csr_symmetric n Ap Aj" "i < n" "j \<in> set (nbrs Ap Aj i)"
  shows "i \<in> set (nbrs Ap Aj j)"
  using assms unfolding csr_symmetric_def by auto

lemma promoted_iff:
  "u \<in> set (promoted active C x x') \<longleftrightarrow> u < length x \<and> x ! u = active \<and> x' ! u = C"
  by (auto simp: promoted_def)

lemma mis_serial_node_inv:
  assumes wf: "csr_wf n Ap Aj" and sym: "csr_symmetric n Ap Aj"
    and d: "active \<noteq> C" "active \<noteq> F" "C \<noteq> F"
    and len: "length x0 = n" and i: "i < n"
    and inv: "serial_inv Ap Aj active C F x0 x"
  shows "serial_inv Ap Aj active C F x0 (snd (mis_serial_node Ap Aj active C F i (N, x)))"
proof (cases "x ! i = active")
  case False
  then show ?thesis using inv by (simp add: mis_serial_node_def)
next
  case True
  define x' where "x' = mark_neighbors Ap Aj active F i (x[i := C])"
  have r: "snd (mis_serial_node Ap Aj active C F i (N, x)) = x'"
    using True by (simp add: mis_serial_node_def x'_def)
  have fr: "mis_frame active C F x0 x" and nb: "\<forall>u \<in> set (promoted active C x0 x). \<forall>v \<in> set (nbrs Ap Aj u). x ! v \<noteq> active"
    and ind: "independent Ap Aj (promoted active C x0 x)"
    using inv by (simp_all add: serial_inv_def)
  have lx: "length x = n" using fr len by (simp add: mis_frame_def)
  have x0i: "x0 ! i = active"
    using fr True d i len unfolding mis_frame_def by metis
  have xi: "x' ! i = C"
    using d i lx by (simp add: x'_def mark_neighbors_nth)
  have xv: "x' ! v = (if v \<in> set (nbrs Ap Aj i) \<and> x ! v = active then F else x ! v)"
    if "v < n" "v \<noteq> i" for v
    using that d lx by (simp add: x'_def mark_neighbors_nth)
  have lx': "length x' = n" using lx by (simp add: x'_def)
  have step: "mis_frame active C F x x'"
    unfolding mis_frame_def using lx lx' xi xv True by (metis)
  have fr': "mis_frame active C F x0 x'"
    by (rule mis_frame_trans [OF d(1) d(2) fr step])
  have prom: "u \<in> set (promoted active C x0 x') \<longleftrightarrow> u = i \<or> u \<in> set (promoted active C x0 x)" for u
  proof (cases "u = i")
    case True
    then show ?thesis using xi x0i i len by (simp add: promoted_iff)
  next
    case False
    show ?thesis
    proof (cases "u < n")
      case True
      with False have "x' ! u = C \<longleftrightarrow> x ! u = C"
        using xv [of u] d by auto
      then show ?thesis using False by (simp add: promoted_iff)
    next
      case False
      then show ?thesis using len i by (auto simp: promoted_iff)
    qed
  qed
  have nact: "x' ! v \<noteq> active" if "v < n" "x ! v \<noteq> active \<or> v \<in> set (nbrs Ap Aj i)" for v
  proof (cases "v = i")
    case True
    then show ?thesis using xi d by simp
  next
    case False
    then show ?thesis using xv [OF that(1) False] that(2) d by auto
  qed
  have nb': "\<forall>u \<in> set (promoted active C x0 x'). \<forall>v \<in> set (nbrs Ap Aj u). x' ! v \<noteq> active"
  proof (intro ballI)
    fix u v assume u: "u \<in> set (promoted active C x0 x')" and v: "v \<in> set (nbrs Ap Aj u)"
    have un: "u < n" using u len by (simp add: promoted_iff)
    have vn: "v < n" by (rule nbrs_in_range [OF wf un v])
    from u prom consider "u = i" | "u \<in> set (promoted active C x0 x)" by blast
    then show "x' ! v \<noteq> active"
    proof cases
      case 1
      then show ?thesis using nact [OF vn] v by simp
    next
      case 2
      then have "x ! v \<noteq> active" using nb v by blast
      then show ?thesis using nact [OF vn] by simp
    qed
  qed
  have notnb: "i \<notin> set (nbrs Ap Aj u)" if "u \<in> set (promoted active C x0 x)" for u
    using nb that True by blast
  have ind': "independent Ap Aj (promoted active C x0 x')"
    unfolding independent_def
  proof (intro ballI impI)
    fix u v assume u: "u \<in> set (promoted active C x0 x')" and v: "v \<in> set (promoted active C x0 x')"
      and ne: "u \<noteq> v"
    show "v \<notin> set (nbrs Ap Aj u)"
    proof (cases "u = i")
      case True
      then have vp: "v \<in> set (promoted active C x0 x)" using v ne prom by auto
      show ?thesis
      proof
        assume "v \<in> set (nbrs Ap Aj u)"
        then have "i \<in> set (nbrs Ap Aj v)" using nbrs_sym [OF sym i] True by simp
        then show False using notnb [OF vp] by simp
      qed
    next
      case False
      then have up: "u \<in> set (promoted active C x0 x)" using u prom by auto
      show ?thesis
      proof (cases "v = i")
        case True
        then show ?thesis using notnb [OF up] by simp
      next
        case False
        then have "v \<in> set (promoted active C x0 x)" using v prom by auto
        then show ?thesis using ind up ne by (auto simp: independent_def)
      qed
    qed
  qed
  show ?thesis unfolding r serial_inv_def using fr' nb' ind' by simp
qed

lemma mis_serial_fold_inv:
  assumes wf: "csr_wf n Ap Aj" and sym: "csr_symmetric n Ap Aj"
    and d: "active \<noteq> C" "active \<noteq> F" "C \<noteq> F"
    and len: "length x0 = n"
  shows "\<forall>i \<in> set ns. i < n \<Longrightarrow> serial_inv Ap Aj active C F x0 x \<Longrightarrow>
         serial_inv Ap Aj active C F x0 (snd (fold (mis_serial_node Ap Aj active C F) ns (N, x)))"
proof (induction ns arbitrary: N x)
  case Nil
  then show ?case by simp
next
  case (Cons i ns)
  obtain N1 x1 where s: "mis_serial_node Ap Aj active C F i (N, x) = (N1, x1)"
    by (cases "mis_serial_node Ap Aj active C F i (N, x)")
  have "serial_inv Ap Aj active C F x0 (snd (mis_serial_node Ap Aj active C F i (N, x)))"
    using Cons.prems by (intro mis_serial_node_inv [OF wf sym d len]) simp_all
  then have "serial_inv Ap Aj active C F x0 x1" using s by simp
  then have "serial_inv Ap Aj active C F x0 (snd (fold (mis_serial_node Ap Aj active C F) ns (N1, x1)))"
    using Cons.prems by (intro Cons.IH) simp_all
  then show ?case using s by simp
qed

lemma serial_inv_init:
  assumes "active \<noteq> C"
  shows "serial_inv Ap Aj active C F x x"
  using assms by (auto simp: serial_inv_def mis_frame_refl promoted_iff independent_def)

lemma mis_serial_independent:
  assumes "csr_wf n Ap Aj" "csr_symmetric n Ap Aj" "length x = n"
    and "active \<noteq> C" "active \<noteq> F" "C \<noteq> F"
  shows "independent Ap Aj (promoted active C x (snd (maximal_independent_set_serial n Ap Aj active C F x)))"
proof -
  have "serial_inv Ap Aj active C F x (snd (fold (mis_serial_node Ap Aj active C F) [0..<n] (0, x)))"
    using assms by (intro mis_serial_fold_inv [where n = n] serial_inv_init) simp_all
  then show ?thesis by (simp add: serial_inv_def maximal_independent_set_serial_def)
qed


lemma luby_scan_cases:
  assumes "luby_scan Aj y active C F i row_end jj x = (x1, jj')" and "jj \<le> row_end"
  shows "(jj' = row_end \<and> x1 = x \<and>
            (\<forall>q. jj \<le> q \<and> q < row_end \<longrightarrow>
               x ! (Aj ! q) \<noteq> C \<and> \<not> (x ! (Aj ! q) = active \<and> outranks y (Aj ! q) i))) \<or>
         (jj' < row_end \<and> x1 = x[i := F]) \<or>
         (jj' < row_end \<and> x1 = x \<and>
            (\<exists>q. jj \<le> q \<and> q < row_end \<and> x ! (Aj ! q) = active \<and> outranks y (Aj ! q) i))"
  using assms
proof (induction Aj y active C F i row_end jj x rule: luby_scan.induct)
  case (1 Aj y active C F i row_end jj x)
  show ?case
  proof (cases "jj < row_end")
    case False
    then show ?thesis using "1.prems" by (subst (asm) luby_scan.simps) simp
  next
    case lt: True
    show ?thesis
    proof (cases "x ! (Aj ! jj) = C")
      case True
      then show ?thesis using "1.prems" lt by (subst (asm) luby_scan.simps) simp
    next
      case nC: False
      show ?thesis
      proof (cases "x ! (Aj ! jj) = active \<and> outranks y (Aj ! jj) i")
        case True
        then have "x1 = x" "jj' = jj" using "1.prems"(1) lt nC
          by (subst (asm) luby_scan.simps, simp add: outranks_def Let_def)+
        then show ?thesis using True lt by auto
      next
        case nO: False
        have rec: "luby_scan Aj y active C F i row_end (jj + 1) x = (x1, jj')"
          using "1.prems"(1) lt nC nO by (subst (asm) luby_scan.simps) (auto simp: outranks_def Let_def)
        have "(jj' = row_end \<and> x1 = x \<and>
            (\<forall>q. jj + 1 \<le> q \<and> q < row_end \<longrightarrow>
               x ! (Aj ! q) \<noteq> C \<and> \<not> (x ! (Aj ! q) = active \<and> outranks y (Aj ! q) i))) \<or>
         (jj' < row_end \<and> x1 = x[i := F]) \<or>
         (jj' < row_end \<and> x1 = x \<and>
            (\<exists>q. jj + 1 \<le> q \<and> q < row_end \<and> x ! (Aj ! q) = active \<and> outranks y (Aj ! q) i))"
          using "1.IH" [OF lt refl refl nC _ rec] nO lt by (auto simp: outranks_def)
        then consider
          (a) "jj' = row_end" "x1 = x" "\<forall>q. jj + 1 \<le> q \<and> q < row_end \<longrightarrow>
               x ! (Aj ! q) \<noteq> C \<and> \<not> (x ! (Aj ! q) = active \<and> outranks y (Aj ! q) i)"
          | (b) "jj' < row_end" "x1 = x[i := F]"
          | (c) "jj' < row_end" "x1 = x" "\<exists>q. jj + 1 \<le> q \<and> q < row_end \<and> x ! (Aj ! q) = active \<and> outranks y (Aj ! q) i"
          by blast
        then show ?thesis
        proof cases
          case a
          have "x ! (Aj ! q) \<noteq> C \<and> \<not> (x ! (Aj ! q) = active \<and> outranks y (Aj ! q) i)"
            if "jj \<le> q \<and> q < row_end" for q
          proof (cases "q = jj")
            case True
            then show ?thesis using nC nO by simp
          next
            case False
            then show ?thesis using a(3) that by simp
          qed
          then show ?thesis using a(1,2) by blast
        next
          case b
          then show ?thesis by simp
        next
          case c
          then obtain q where "jj + 1 \<le> q \<and> q < row_end \<and> x ! (Aj ! q) = active \<and> outranks y (Aj ! q) i"
            by blast
          then have "jj \<le> q \<and> q < row_end \<and> x ! (Aj ! q) = active \<and> outranks y (Aj ! q) i" by simp
          then show ?thesis using c(1,2) by blast
        qed
      qed
    qed
  qed
qed

lemma nbrs_set:
  "set (nbrs Ap Aj i) = {Aj ! q | q. Ap ! i \<le> q \<and> q < Ap ! (i + 1)}"
  by (auto simp: nbrs_def csr_row_def)

text \<open>What one step of the parallel sweep does to the state, case by case.\<close>

lemma luby_node_cases:
  assumes wf: "csr_wf n Ap Aj" and d: "active \<noteq> C" "active \<noteq> F" and i: "i < n" and lx: "length x = n"
    and r: "luby_node Ap Aj y active C F i (N, x, an) = (N', x', an')"
  shows "(x' = x \<and> x ! i \<noteq> active \<and> an' = an \<and> N' = N) \<or>
         (x ! i = active \<and> (\<forall>v \<in> set (nbrs Ap Aj i). x ! v \<noteq> C) \<and> length x' = n \<and> x' ! i = C \<and>
            (\<forall>v < n. v \<noteq> i \<longrightarrow> x' ! v = (if v \<in> set (nbrs Ap Aj i) \<and> x ! v = active then F else x ! v)) \<and>
            (\<forall>v \<in> set (nbrs Ap Aj i). \<not> (x ! v = active \<and> outranks y v i)) \<and> an' = an \<and> N' = N + 1) \<or>
         (x ! i = active \<and> x' = x[i := F] \<and> an' \<and> N' = N) \<or>
         (x ! i = active \<and> x' = x \<and> an' \<and> N' = N \<and> (\<exists>v \<in> set (nbrs Ap Aj i). x ! v = active \<and> outranks y v i))"
proof (cases "x ! i = active")
  case False
  then show ?thesis using r by (simp add: luby_node_def)
next
  case True
  obtain x1 jj where s: "luby_scan Aj y active C F i (Ap ! (i + 1)) (Ap ! i) x = (x1, jj)"
    by (cases "luby_scan Aj y active C F i (Ap ! (i + 1)) (Ap ! i) x")
  have le: "Ap ! i \<le> Ap ! (i + 1)" using wf i by (simp add: csr_wf_def)
  from luby_scan_cases [OF s le] consider
    (a) "jj = Ap ! (i + 1)" "x1 = x" "\<forall>q. Ap ! i \<le> q \<and> q < Ap ! (i + 1) \<longrightarrow>
               x ! (Aj ! q) \<noteq> C \<and> \<not> (x ! (Aj ! q) = active \<and> outranks y (Aj ! q) i)"
    | (b) "jj < Ap ! (i + 1)" "x1 = x[i := F]"
    | (c) "jj < Ap ! (i + 1)" "x1 = x" "\<exists>q. Ap ! i \<le> q \<and> q < Ap ! (i + 1) \<and> x ! (Aj ! q) = active \<and> outranks y (Aj ! q) i"
    by blast
  then show ?thesis
  proof cases
    case a
    have res: "x' = (mark_neighbors Ap Aj active F i x)[i := C]" "an' = an" "N' = N + 1"
      using r True s a(1,2) by (simp_all add: luby_node_def)
    have 1: "\<forall>v \<in> set (nbrs Ap Aj i). x ! v \<noteq> C \<and> \<not> (x ! v = active \<and> outranks y v i)"
      using a(3) by (auto simp: nbrs_set)
    have 2: "x' ! i = C" using res(1) i lx by simp
    have 3: "\<forall>v < n. v \<noteq> i \<longrightarrow> x' ! v = (if v \<in> set (nbrs Ap Aj i) \<and> x ! v = active then F else x ! v)"
      using res(1) lx d by (simp add: mark_neighbors_nth)
    have 4: "length x' = n" using res(1) lx by simp
    show ?thesis using True 1 2 3 4 res(2,3) by blast
  next
    case b
    then have "x' = x[i := F]" "an'" "N' = N"
      using r True s by (simp_all add: luby_node_def)
    then show ?thesis using True by blast
  next
    case c
    then have "x' = x" "an'" "N' = N"
      using r True s by (simp_all add: luby_node_def)
    moreover have "\<exists>v \<in> set (nbrs Ap Aj i). x ! v = active \<and> outranks y v i"
      using c(3) by (auto simp: nbrs_set)
    ultimately show ?thesis using True by blast
  qed
qed


lemma luby_node_frame:
  assumes wf: "csr_wf n Ap Aj" and d: "active \<noteq> C" "active \<noteq> F" and i: "i < n" and lx: "length x = n"
    and r: "luby_node Ap Aj y active C F i (N, x, an) = (N', x', an')"
  shows "mis_frame active C F x x'"
proof -
  from luby_node_cases [OF wf d i lx r] show ?thesis
  proof (elim disjE conjE)
    assume "x' = x"
    then show ?thesis by (simp add: mis_frame_refl)
  next
    assume a: "x ! i = active" "length x' = n" "x' ! i = C"
      "\<forall>v < n. v \<noteq> i \<longrightarrow> x' ! v = (if v \<in> set (nbrs Ap Aj i) \<and> x ! v = active then F else x ! v)"
    show ?thesis unfolding mis_frame_def using a lx by metis
  next
    assume "x ! i = active" "x' = x[i := F]"
    then show ?thesis using lx by (auto simp: mis_frame_def nth_list_update_total)
  next
    assume "x' = x"
    then show ?thesis by (simp add: mis_frame_refl)
  qed
qed

lemma luby_node_inv:
  assumes wf: "csr_wf n Ap Aj" and sym: "csr_symmetric n Ap Aj"
    and d: "active \<noteq> C" "active \<noteq> F" "C \<noteq> F"
    and len: "length x0 = n" and i: "i < n"
    and inv: "par_inv Ap Aj active C F x0 x"
    and r: "luby_node Ap Aj y active C F i (N, x, an) = (N', x', an')"
  shows "par_inv Ap Aj active C F x0 x'"
proof -
  have fr: "mis_frame active C F x0 x" and ind: "independent Ap Aj (promoted active C x0 x)"
    using inv by (simp_all add: par_inv_def)
  have lx: "length x = n" using fr len by (simp add: mis_frame_def)
  have step: "mis_frame active C F x x'"
    by (rule luby_node_frame [OF wf d(1,2) i lx r])
  have fr': "mis_frame active C F x0 x'"
    by (rule mis_frame_trans [OF d(1,2) fr step])
  from luby_node_cases [OF wf d(1,2) i lx r]
  consider (same) "x' = x"
    | (prom) "x ! i = active" "\<forall>v \<in> set (nbrs Ap Aj i). x ! v \<noteq> C" "x' ! i = C"
        "\<forall>v < n. v \<noteq> i \<longrightarrow> x' ! v = (if v \<in> set (nbrs Ap Aj i) \<and> x ! v = active then F else x ! v)"
    | (dem) "x ! i = active" "x' = x[i := F]"
    by blast
  then have "independent Ap Aj (promoted active C x0 x')"
  proof cases
    case same
    then show ?thesis using ind by simp
  next
    case dem
    have "u \<in> set (promoted active C x0 x') \<longleftrightarrow> u \<in> set (promoted active C x0 x)" for u
      using dem d lx len by (auto simp: promoted_iff nth_list_update_total)
    then show ?thesis using ind by (simp add: independent_def)
  next
    case prom
    have pr: "u = i \<or> u \<in> set (promoted active C x0 x)" if "u \<in> set (promoted active C x0 x')" for u
    proof (cases "u = i")
      case False
      have un: "u < n" using that len by (simp add: promoted_iff)
      have "x' ! u = C" using that by (simp add: promoted_iff)
      then have "x ! u = C" using prom(4) un False d by (auto split: if_splits)
      then show ?thesis using that by (simp add: promoted_iff)
    qed simp
    have xC: "x ! u = C" if "u \<in> set (promoted active C x0 x)" for u
      using that by (simp add: promoted_iff)
    show ?thesis unfolding independent_def
    proof (intro ballI impI)
      fix u v assume u: "u \<in> set (promoted active C x0 x')" and v: "v \<in> set (promoted active C x0 x')"
        and ne: "u \<noteq> v"
      have un: "u < n" using u len by (simp add: promoted_iff)
      show "v \<notin> set (nbrs Ap Aj u)"
      proof (cases "u = i")
        case True
        then have "v \<in> set (promoted active C x0 x)" using pr [OF v] ne by auto
        then show ?thesis using xC prom(2) True by blast
      next
        case False
        then have up: "u \<in> set (promoted active C x0 x)" using pr [OF u] by simp
        show ?thesis
        proof (cases "v = i")
          case True
          show ?thesis
          proof
            assume "v \<in> set (nbrs Ap Aj u)"
            then have "u \<in> set (nbrs Ap Aj i)" using nbrs_sym [OF sym un] True by simp
            then show False using xC [OF up] prom(2) by blast
          qed
        next
          case False
          then have "v \<in> set (promoted active C x0 x)" using pr [OF v] by simp
          then show ?thesis using ind up ne by (auto simp: independent_def)
        qed
      qed
    qed
  qed
  then show ?thesis using fr' by (simp add: par_inv_def)
qed

lemma luby_fold_inv:
  assumes wf: "csr_wf n Ap Aj" and sym: "csr_symmetric n Ap Aj"
    and d: "active \<noteq> C" "active \<noteq> F" "C \<noteq> F"
    and len: "length x0 = n"
  shows "\<forall>i \<in> set ns. i < n \<Longrightarrow> par_inv Ap Aj active C F x0 x \<Longrightarrow>
         fold (luby_node Ap Aj y active C F) ns (N, x, an) = (N', x', an') \<Longrightarrow>
         par_inv Ap Aj active C F x0 x'"
proof (induction ns arbitrary: N x an)
  case Nil
  then show ?case by simp
next
  case (Cons i ns)
  obtain N1 x1 an1 where s: "luby_node Ap Aj y active C F i (N, x, an) = (N1, x1, an1)"
    by (cases "luby_node Ap Aj y active C F i (N, x, an)")
  have "par_inv Ap Aj active C F x0 x1"
    using Cons.prems by (intro luby_node_inv [OF wf sym d len _ _ s]) simp_all
  moreover have "fold (luby_node Ap Aj y active C F) ns (N1, x1, an1) = (N', x', an')"
    using Cons.prems(3) s by simp
  ultimately show ?case using Cons.prems(1) by (intro Cons.IH) simp_all
qed

text \<open>Progress of a sweep: the best-ranked active vertex does not stay active.\<close>

lemma luby_fold_progress:
  assumes wf: "csr_wf n Ap Aj" and d: "active \<noteq> C" "active \<noteq> F"
    and m: "m < n" and len: "length xs = n"
    and best: "\<forall>u < n. xs ! u = active \<longrightarrow> \<not> outranks y u m"
  shows "\<forall>i \<in> set ns. i < n \<Longrightarrow> mis_frame active C F xs x \<Longrightarrow>
         fold (luby_node Ap Aj y active C F) ns (N, x, an) = (N', x', an') \<Longrightarrow>
         mis_frame active C F xs x' \<and> (m \<in> set ns \<or> x ! m \<noteq> active \<longrightarrow> x' ! m \<noteq> active)"
proof (induction ns arbitrary: N x an)
  case Nil
  then show ?case by simp
next
  case (Cons i ns)
  obtain N1 x1 an1 where s: "luby_node Ap Aj y active C F i (N, x, an) = (N1, x1, an1)"
    by (cases "luby_node Ap Aj y active C F i (N, x, an)")
  have i: "i < n" using Cons.prems(1) by simp
  have lx: "length x = n" using Cons.prems(2) len by (simp add: mis_frame_def)
  have step: "mis_frame active C F x x1"
    by (rule luby_node_frame [OF wf d i lx s])
  have fr1: "mis_frame active C F xs x1"
    by (rule mis_frame_trans [OF d Cons.prems(2) step])
  have rest: "fold (luby_node Ap Aj y active C F) ns (N1, x1, an1) = (N', x', an')"
    using Cons.prems(3) s by simp
  have IH: "mis_frame active C F xs x' \<and> (m \<in> set ns \<or> x1 ! m \<noteq> active \<longrightarrow> x' ! m \<noteq> active)"
    using Cons.prems(1) fr1 rest by (intro Cons.IH) simp_all
  have "x1 ! m \<noteq> active" if "i = m \<or> x ! m \<noteq> active"
  proof (cases "x ! m = active")
    case False
    then show ?thesis using mis_frame_active [OF d step] m lx by blast
  next
    case True
    then have im: "i = m" using that by simp
    from luby_node_cases [OF wf d i lx s]
    consider (skip) "x ! i \<noteq> active"
      | (prom) "x1 ! i = C"
      | (dem) "x1 = x[i := F]"
      | (wait) "\<exists>v \<in> set (nbrs Ap Aj i). x ! v = active \<and> outranks y v i"
      by blast
    then show ?thesis
    proof cases
      case skip
      then show ?thesis using True im by simp
    next
      case prom
      then show ?thesis using im d by simp
    next
      case dem
      then show ?thesis using im d lx m by simp
    next
      case wait
      then obtain v where v: "v \<in> set (nbrs Ap Aj i)" "x ! v = active" "outranks y v i" by blast
      have vn: "v < n" by (rule nbrs_in_range [OF wf i v(1)])
      have "xs ! v = active"
        using mis_frame_active [OF d Cons.prems(2)] vn len v(2) by simp
      then show ?thesis using best vn v(3) im by blast
    qed
  qed
  then show ?case using IH by auto
qed

lemma luby_fold_idle:
  "\<forall>i \<in> set ns. x ! i \<noteq> active \<Longrightarrow>
   fold (luby_node Ap Aj y active C F) ns (N, x, an) = (N, x, an)"
  by (induction ns) (simp_all add: luby_node_def)

lemma best_active_exists:
  fixes y :: "('r::linorder) list"
  assumes "active_set active x \<noteq> {}"
  shows "\<exists>m \<in> active_set active x. \<forall>u \<in> active_set active x. \<not> outranks y u m"
proof -
  let ?A = "active_set active x"
  have fin: "finite ?A" by (simp add: active_set_def)
  let ?top = "Max ((\<lambda>u. y ! u) ` ?A)"
  let ?B = "{u \<in> ?A. y ! u = ?top}"
  have "?top \<in> (\<lambda>u. y ! u) ` ?A" using fin assms by (intro Max_in) simp_all
  then have Bne: "?B \<noteq> {}" by auto
  have finB: "finite ?B" using fin by simp
  let ?m = "Max ?B"
  have mB: "?m \<in> ?B" using finB Bne by (rule Max_in)
  have "\<not> outranks y u ?m" if u: "u \<in> ?A" for u
  proof -
    have le: "y ! u \<le> ?top" using fin u by (intro Max_ge) simp_all
    have ym: "y ! ?m = ?top" using mB by simp
    show ?thesis
    proof (cases "y ! u = ?top")
      case True
      then have "u \<in> ?B" using u by simp
      then have "u \<le> ?m" using finB by (intro Max_ge)
      then show ?thesis using True ym by (simp add: outranks_def)
    next
      case False
      then show ?thesis using le ym by (simp add: outranks_def)
    qed
  qed
  then show ?thesis using mB by blast
qed

lemma luby_sweep_decreases:
  assumes wf: "csr_wf n Ap Aj" and d: "active \<noteq> C" "active \<noteq> F" and lx: "length x = n"
    and r: "luby_sweep n Ap Aj y active C F N x = (N', x', an')"
  shows "an' \<longrightarrow> card (active_set active x') < card (active_set active x)"
proof (cases "active_set active x = {}")
  case True
  then have "\<forall>i \<in> set [0..<n]. x ! i \<noteq> active" using lx by (auto simp: active_set_def)
  from luby_fold_idle [OF this, of Ap Aj y C F N False] r show ?thesis by (simp add: luby_sweep_def)
next
  case False
  from best_active_exists [OF False, of y] obtain m
    where m: "m \<in> active_set active x" and best: "\<forall>u \<in> active_set active x. \<not> outranks y u m" by blast
  have mn: "m < n" and xm: "x ! m = active" using m lx by (simp_all add: active_set_def)
  have best': "\<forall>u < n. x ! u = active \<longrightarrow> \<not> outranks y u m"
    using best lx by (simp add: active_set_def)
  have f: "fold (luby_node Ap Aj y active C F) [0..<n] (N, x, False) = (N', x', an')"
    using r by (simp add: luby_sweep_def)
  have res: "mis_frame active C F x x' \<and> (m \<in> set [0..<n] \<or> x ! m \<noteq> active \<longrightarrow> x' ! m \<noteq> active)"
    by (rule luby_fold_progress [OF wf d mn lx best' _ mis_frame_refl f]) simp
  then have fr: "mis_frame active C F x x'" and xm': "x' ! m \<noteq> active" using mn by simp_all
  have lx': "length x' = n" using fr lx by (simp add: mis_frame_def)
  have sub: "active_set active x' \<subseteq> active_set active x - {m}"
    using mis_frame_active [OF d fr] lx lx' xm' by (auto simp: active_set_def)
  have "card (active_set active x') \<le> card (active_set active x - {m})"
    by (rule card_mono [OF _ sub]) (simp add: active_set_def)
  also have "\<dots> < card (active_set active x)"
    using m by (intro card_Diff1_less) (simp_all add: active_set_def)
  finally show ?thesis by simp
qed

lemma luby_loop_total:
  assumes wf: "csr_wf n Ap Aj" and sym: "csr_symmetric n Ap Aj"
    and d: "active \<noteq> C" "active \<noteq> F" "C \<noteq> F"
    and len: "length x0 = n"
  shows "par_inv Ap Aj active C F x0 x \<Longrightarrow>
         \<exists>N' x'. luby_loop n Ap Aj y active C F max_iters num_iters an N x = Some (N', x') \<and>
                 par_inv Ap Aj active C F x0 x'"
proof (induction "card (active_set active x)" arbitrary: x N num_iters an rule: less_induct)
  case less
  show ?case
  proof (cases "an \<and> (max_iters = -1 \<or> num_iters < max_iters)")
    case False
    then have "luby_loop n Ap Aj y active C F max_iters num_iters an N x = Some (N, x)"
      by (subst luby_loop.simps) auto
    then show ?thesis using less.prems by simp
  next
    case True
    obtain N1 x1 an1 where s: "luby_sweep n Ap Aj y active C F N x = (N1, x1, an1)"
      by (cases "luby_sweep n Ap Aj y active C F N x")
    have lx: "length x = n" using less.prems len by (simp add: par_inv_def mis_frame_def)
    have inv1: "par_inv Ap Aj active C F x0 x1"
      using s by (intro luby_fold_inv [OF wf sym d len _ less.prems, of "[0..<n]" y N False N1 x1 an1])
        (simp_all add: luby_sweep_def)
    have unf: "luby_loop n Ap Aj y active C F max_iters num_iters an N x =
               luby_loop n Ap Aj y active C F max_iters (num_iters + 1) an1 N1 x1"
      using True s by (subst luby_loop.simps) simp
    show ?thesis
    proof (cases an1)
      case False
      then have "luby_loop n Ap Aj y active C F max_iters (num_iters + 1) an1 N1 x1 = Some (N1, x1)"
        by (subst luby_loop.simps) simp
      then show ?thesis using unf inv1 by simp
    next
      case True
      then have "card (active_set active x1) < card (active_set active x)"
        using luby_sweep_decreases [OF wf d(1,2) lx s] by simp
      from less.hyps [OF this inv1] show ?thesis using unf by simp
    qed
  qed
qed

lemma par_inv_init: "par_inv Ap Aj active C F x x" if "active \<noteq> C"
  using that by (auto simp: par_inv_def mis_frame_refl promoted_iff independent_def)

lemma mis_parallel_independent:
  assumes "csr_wf n Ap Aj" "csr_symmetric n Ap Aj" "length x = n"
    and "active \<noteq> C" "active \<noteq> F" "C \<noteq> F"
  shows "\<exists>N' x'. maximal_independent_set_parallel n Ap Aj active C F x y max_iters = Some (N', x') \<and>
          independent Ap Aj (promoted active C x x')"
  using luby_loop_total [OF assms(1,2,4,5,6,3) par_inv_init [OF assms(4)], of y max_iters 0 True 0]
  by (auto simp: maximal_independent_set_parallel_def par_inv_def)

text \<open>
  Claim C1. On a symmetric CSR graph, with pairwise distinct sentinels, the vertices that
  a call of the serial or of the parallel kernel promotes (active before the call, \<open>C\<close>
  after it) are pairwise non-adjacent: none occurs in the row of another. The parallel
  kernel returns for every \<open>max_iters\<close>, also for \<open>-1\<close>.
\<close>

theorem mis_promoted_independent:
  assumes "csr_wf n Ap Aj" and "csr_symmetric n Ap Aj" and "length x = n"
    and "active \<noteq> C" and "active \<noteq> F" and "C \<noteq> F"
  shows "independent Ap Aj
           (promoted active C x (snd (maximal_independent_set_serial n Ap Aj active C F x))) \<and>
         (\<exists>N' x'. maximal_independent_set_parallel n Ap Aj active C F x y max_iters = Some (N', x') \<and>
            independent Ap Aj (promoted active C x x'))"
  using mis_serial_independent [OF assms] mis_parallel_independent [OF assms] by simp

lemma path5_wf: "csr_wf 5 path5_Ap path5_Aj"
  by code_simp

lemma path5_symmetric: "csr_symmetric 5 path5_Ap path5_Aj"
  by code_simp

theorem mis_promoted_independent_witness:
  "csr_wf 5 path5_Ap path5_Aj \<and> csr_symmetric 5 path5_Ap path5_Aj \<and>
   maximal_independent_set_serial 5 path5_Ap path5_Aj 0 1 2 [0, 0, 0, 0, 0] = (3, [1, 2, 1, 2, 1]) \<and>
   independent path5_Ap path5_Aj
     (promoted 0 1 [0, 0, 0, 0, 0] (snd (maximal_independent_set_serial 5 path5_Ap path5_Aj 0 1 2 [0, 0, 0, 0, 0]))) \<and>
   (\<exists>N' x'. maximal_independent_set_parallel 5 path5_Ap path5_Aj 0 1 2 [0, 0, 0, 0, 0] [3, 1, 4, 1, 5 :: int] (-1)
               = Some (N', x') \<and>
            independent path5_Ap path5_Aj (promoted 0 1 [0, 0, 0, 0, 0] x'))"
proof -
  have e: "maximal_independent_set_serial 5 path5_Ap path5_Aj 0 1 2 [0, 0, 0, 0, 0] = (3, [1, 2, 1, 2, 1])"
    by code_simp
  have l: "length [0, 0, 0, 0, 0 :: int] = 5" by simp
  show ?thesis
    using path5_wf path5_symmetric e
      mis_promoted_independent [OF path5_wf path5_symmetric l, of 0 1 2 "[3, 1, 4, 1, 5 :: int]" "-1"]
    by simp
qed

section \<open>The parallel kernel on the triangle\<close>

lemma luby_sweep_triangle_first:
  assumes "active \<noteq> C" and "active \<noteq> F"
  shows "luby_sweep 3 triangle_Ap triangle_Aj [1 / 2, 1 / 2, 1 / 2 :: real] active C F 0 [active, active, active]
         = (1, [F, F, C], True)"
  using assms
  by (simp add: triangle_Ap_def triangle_Aj_def luby_sweep_def luby_node_def luby_scan.simps
      mark_neighbors_def nbrs_def csr_row_def upt_rec numeral_nat)

lemma luby_sweep_triangle_second:
  assumes "active \<noteq> C" and "active \<noteq> F"
  shows "luby_sweep 3 triangle_Ap triangle_Aj [1 / 2, 1 / 2, 1 / 2 :: real] active C F N [F, F, C]
         = (N, [F, F, C], False)"
  using assms
  by (simp add: triangle_Ap_def triangle_Aj_def luby_sweep_def luby_node_def luby_scan.simps
      mark_neighbors_def nbrs_def csr_row_def upt_rec numeral_nat)

text \<open>
  Claim C4. On the triangle with equal weights \<open>[0.5, 0.5, 0.5]\<close> and all vertices
  active, the parallel kernel promotes vertex 2 only: it returns the count 1 and the
  state \<open>[F, F, C]\<close> (for \<open>max_iters = -1\<close> and for every positive bound).
\<close>

theorem luby_triangle_promotes_last:
  assumes "active \<noteq> C" and "active \<noteq> F" and "max_iters = -1 \<or> 0 < max_iters"
  shows "maximal_independent_set_parallel 3 triangle_Ap triangle_Aj active C F
           [active, active, active] [1 / 2, 1 / 2, 1 / 2 :: real] max_iters = Some (1, [F, F, C])"
  using assms(3) unfolding maximal_independent_set_parallel_def
  by (auto simp add: luby_loop.simps luby_sweep_triangle_first [OF assms(1,2)]
      luby_sweep_triangle_second [OF assms(1,2)])

theorem luby_triangle_promotes_last_witness:
  "(0::int) \<noteq> 1 \<and> (0::int) \<noteq> 2 \<and> ((-1::int) = -1 \<or> 0 < (-1::int)) \<and>
   maximal_independent_set_parallel 3 [0, 2, 4, 6] [1, 2, 0, 2, 0, 1] 0 1 2
     [0, 0, 0] [1 / 2, 1 / 2, 1 / 2 :: real] (-1) = Some (1, [2, 2, 1])"
proof -
  have a: "(0::int) \<noteq> 1" and b: "(0::int) \<noteq> 2" and c: "(-1::int) = -1 \<or> 0 < (-1::int)"
    by simp_all
  show ?thesis
    using luby_triangle_promotes_last [OF a b c] a b c
    by (simp add: triangle_Ap_def triangle_Aj_def)
qed

section \<open>First-fit recolouring\<close>


lemma mask_fold_length:
  "length (fold (\<lambda>j msk. if i = j then msk else if x ! j < 0 then msk else msk[nat (x ! j) := True]) js m) = length m"
  by (induction js arbitrary: m) auto

lemma mask_fold_nth:
  assumes "c < length m"
  shows "fold (\<lambda>j msk. if i = j then msk else if x ! j < 0 then msk else msk[nat (x ! j) := True]) js m ! c
         = (m ! c \<or> (\<exists>j \<in> set js. j \<noteq> i \<and> 0 \<le> x ! j \<and> nat (x ! j) = c))"
  using assms
proof (induction js arbitrary: m)
  case Nil
  show ?case by simp
next
  case (Cons j js)
  let ?g = "\<lambda>j mask. if i = j then mask else if x ! j < 0 then mask else mask[nat (x ! j) := True]"
  have l: "c < length (?g j m)" using Cons.prems by simp
  have "fold ?g (j # js) m ! c = fold ?g js (?g j m) ! c" by simp
  also have "\<dots> = (?g j m ! c \<or> (\<exists>j \<in> set js. j \<noteq> i \<and> 0 \<le> x ! j \<and> nat (x ! j) = c))"
    by (rule Cons.IH [OF l])
  also have "\<dots> = (m ! c \<or> (\<exists>j \<in> set (j # js). j \<noteq> i \<and> 0 \<le> x ! j \<and> nat (x ! j) = c))"
    using Cons.prems by (auto simp: nth_list_update_total)
  finally show ?case .
qed

lemma first_fit_mask_length: "length (first_fit_mask Ap Aj x K i) = nat K"
  by (simp add: first_fit_mask_def mask_fold_length)

lemma first_fit_mask_nth:
  assumes "c < nat K"
  shows "first_fit_mask Ap Aj x K i ! c \<longleftrightarrow> int c \<in> set (neighbor_colors Ap Aj x i)"
proof -
  have "first_fit_mask Ap Aj x K i ! c \<longleftrightarrow>
        (\<exists>j \<in> set (nbrs Ap Aj i). j \<noteq> i \<and> 0 \<le> x ! j \<and> nat (x ! j) = c)"
    using assms unfolding first_fit_mask_def by (subst mask_fold_nth) simp_all
  also have "\<dots> \<longleftrightarrow> int c \<in> set (neighbor_colors Ap Aj x i)"
    by (auto simp: neighbor_colors_def)
  finally show ?thesis .
qed

lemma first_false_bounds: "0 \<le> first_false m \<and> first_false m \<le> int (length m)"
  by (simp add: first_false_def length_takeWhile_le)

lemma first_false_below:
  assumes "c < nat (first_false m)"
  shows "m ! c"
proof -
  have "c < length (takeWhile (\<lambda>b. b) m)" using assms by (simp add: first_false_def)
  then have "takeWhile (\<lambda>b. b) m ! c \<in> set (takeWhile (\<lambda>b. b) m)" by (rule nth_mem)
  then have "takeWhile (\<lambda>b. b) m ! c" by (rule set_takeWhileD [THEN conjunct2])
  moreover have "takeWhile (\<lambda>b. b) m ! c = m ! c"
    using \<open>c < length (takeWhile (\<lambda>b. b) m)\<close> by (rule takeWhile_nth)
  ultimately show ?thesis by simp
qed

lemma first_false_at:
  assumes "first_false m < int (length m)"
  shows "\<not> m ! nat (first_false m)"
  using assms nth_length_takeWhile [of "\<lambda>b. b" m] by (simp add: first_false_def)


lemma neighbor_colors_cong:
  assumes "\<forall>j \<in> set (nbrs Ap Aj i). j \<noteq> i \<longrightarrow> xc ! j = x ! j"
  shows "neighbor_colors Ap Aj xc i = neighbor_colors Ap Aj x i"
proof -
  have "filter (\<lambda>j. j \<noteq> i \<and> 0 \<le> xc ! j) (nbrs Ap Aj i) = filter (\<lambda>j. j \<noteq> i \<and> 0 \<le> x ! j) (nbrs Ap Aj i)"
    using assms by (intro filter_cong) auto
  moreover have "map (\<lambda>j. xc ! j) (filter (\<lambda>j. j \<noteq> i \<and> 0 \<le> x ! j) (nbrs Ap Aj i))
               = map (\<lambda>j. x ! j) (filter (\<lambda>j. j \<noteq> i \<and> 0 \<le> x ! j) (nbrs Ap Aj i))"
    using assms by (intro map_cong) auto
  ultimately show ?thesis by (simp add: neighbor_colors_def)
qed

lemma first_fit_smallest:
  assumes K: "0 \<le> K"
    and nK: "\<forall>j \<in> set (nbrs Ap Aj i). j \<noteq> i \<longrightarrow> x ! j \<noteq> K"
  shows "smallest_free (neighbor_colors Ap Aj x i) K (first_false (first_fit_mask Ap Aj x K i))"
proof -
  let ?m = "first_fit_mask Ap Aj x K i"
  let ?c = "first_false ?m"
  have b: "0 \<le> ?c" "?c \<le> K"
    using first_false_bounds [of ?m] K by (simp_all add: first_fit_mask_length)
  have below: "int c' \<in> set (neighbor_colors Ap Aj x i)" if "c' < nat ?c" for c'
  proof -
    have "c' < nat K" using that b by simp
    then show ?thesis using first_false_below [OF that] by (simp add: first_fit_mask_nth)
  qed
  have free: "?c \<notin> set (neighbor_colors Ap Aj x i)"
  proof (cases "?c < K")
    case True
    then have "?c < int (length ?m)" by (simp add: first_fit_mask_length)
    then have "\<not> ?m ! nat ?c" by (rule first_false_at)
    moreover have "nat ?c < nat K" using True b by simp
    ultimately have "int (nat ?c) \<notin> set (neighbor_colors Ap Aj x i)"
      by (simp add: first_fit_mask_nth)
    then show ?thesis using b by simp
  next
    case False
    then have "?c = K" using b by simp
    then show ?thesis using nK by (auto simp: neighbor_colors_def)
  qed
  show ?thesis unfolding smallest_free_def using b below free by simp
qed

lemma first_fit_node_inv:
  assumes wf: "csr_wf n Ap Aj" and K: "0 \<le> K"
    and na: "\<forall>i \<in> set [0..<n]. \<forall>j \<in> set (nbrs Ap Aj i). i \<noteq> j \<and> x ! i = K \<longrightarrow> x ! j \<noteq> K"
    and i: "i < n" and inv: "ff_inv n Ap Aj K x xc"
  shows "ff_inv n Ap Aj K x (first_fit_node Ap Aj K i xc) \<and>
         (x ! i = K \<longrightarrow> smallest_free (neighbor_colors Ap Aj x i) K (first_fit_node Ap Aj K i xc ! i)) \<and>
         (\<forall>v. v \<noteq> i \<longrightarrow> first_fit_node Ap Aj K i xc ! v = xc ! v)"
proof -
  have lx: "length xc = n"
    and q: "\<And>v. v < n \<Longrightarrow> xc ! v = x ! v \<or> (x ! v = K \<and> smallest_free (neighbor_colors Ap Aj x v) K (xc ! v))"
    using inv by (simp_all add: ff_inv_def)
  show ?thesis
  proof (cases "xc ! i = K")
    case False
    then have "first_fit_node Ap Aj K i xc = xc" by (simp add: first_fit_node_def)
    then show ?thesis using inv q [OF i] False by auto
  next
    case True
    have xi: "x ! i = K" using q [OF i] True by auto
    have nb: "xc ! j = x ! j \<and> x ! j \<noteq> K" if "j \<in> set (nbrs Ap Aj i)" "j \<noteq> i" for j
    proof -
      have jn: "j < n" using wf i that(1) unfolding csr_wf_def by auto
      have "x ! j \<noteq> K" using na i that xi by auto
      then show ?thesis using q [OF jn] by auto
    qed
    have eq: "neighbor_colors Ap Aj xc i = neighbor_colors Ap Aj x i"
      by (rule neighbor_colors_cong) (use nb in blast)
    have "smallest_free (neighbor_colors Ap Aj xc i) K (first_false (first_fit_mask Ap Aj xc K i))"
      by (rule first_fit_smallest [OF K]) (use nb in auto)
    then have sm: "smallest_free (neighbor_colors Ap Aj x i) K (first_false (first_fit_mask Ap Aj xc K i))"
      by (simp add: eq)
    have r: "first_fit_node Ap Aj K i xc = xc[i := first_false (first_fit_mask Ap Aj xc K i)]"
      using True by (simp add: first_fit_node_def)
    have at: "first_fit_node Ap Aj K i xc ! i = first_false (first_fit_mask Ap Aj xc K i)"
      using r i lx by simp
    have other: "first_fit_node Ap Aj K i xc ! v = xc ! v" if "v \<noteq> i" for v
      using r that by simp
    have "ff_inv n Ap Aj K x (first_fit_node Ap Aj K i xc)"
      unfolding ff_inv_def
    proof (intro conjI allI impI)
      show "length (first_fit_node Ap Aj K i xc) = n" using r lx by simp
    next
      fix v assume v: "v < n"
      show "first_fit_node Ap Aj K i xc ! v = x ! v \<or>
            (x ! v = K \<and> smallest_free (neighbor_colors Ap Aj x v) K (first_fit_node Ap Aj K i xc ! v))"
      proof (cases "v = i")
        case True
        then show ?thesis using at sm xi by simp
      next
        case False
        then show ?thesis using other q [OF v] by simp
      qed
    qed
    then show ?thesis using at sm other by simp
  qed
qed

lemma first_fit_fold_inv:
  assumes wf: "csr_wf n Ap Aj" and K: "0 \<le> K"
    and na: "\<forall>i \<in> set [0..<n]. \<forall>j \<in> set (nbrs Ap Aj i). i \<noteq> j \<and> x ! i = K \<longrightarrow> x ! j \<noteq> K"
  shows "\<forall>i \<in> set ns. i < n \<Longrightarrow> ff_inv n Ap Aj K x xc \<Longrightarrow>
         ff_inv n Ap Aj K x (fold (first_fit_node Ap Aj K) ns xc) \<and>
         (\<forall>v. (v \<in> set ns \<or> smallest_free (neighbor_colors Ap Aj x v) K (xc ! v)) \<and> x ! v = K \<longrightarrow>
              smallest_free (neighbor_colors Ap Aj x v) K (fold (first_fit_node Ap Aj K) ns xc ! v))"
proof (induction ns arbitrary: xc)
  case Nil
  then show ?case by simp
next
  case (Cons i ns)
  let ?x1 = "first_fit_node Ap Aj K i xc"
  have i: "i < n" using Cons.prems(1) by simp
  from first_fit_node_inv [OF wf K na i Cons.prems(2)]
  have inv1: "ff_inv n Ap Aj K x ?x1"
    and at: "x ! i = K \<longrightarrow> smallest_free (neighbor_colors Ap Aj x i) K (?x1 ! i)"
    and other: "\<forall>v. v \<noteq> i \<longrightarrow> ?x1 ! v = xc ! v" by simp_all
  have IH: "ff_inv n Ap Aj K x (fold (first_fit_node Ap Aj K) ns ?x1) \<and>
         (\<forall>v. (v \<in> set ns \<or> smallest_free (neighbor_colors Ap Aj x v) K (?x1 ! v)) \<and> x ! v = K \<longrightarrow>
              smallest_free (neighbor_colors Ap Aj x v) K (fold (first_fit_node Ap Aj K) ns ?x1 ! v))"
    using Cons.prems(1) inv1 by (intro Cons.IH) simp_all
  have "smallest_free (neighbor_colors Ap Aj x v) K (fold (first_fit_node Ap Aj K) ns ?x1 ! v)"
    if "(v \<in> set (i # ns) \<or> smallest_free (neighbor_colors Ap Aj x v) K (xc ! v)) \<and> x ! v = K" for v
  proof (cases "v = i")
    case True
    then show ?thesis using IH at that by blast
  next
    case False
    then have "?x1 ! v = xc ! v" using other by simp
    then show ?thesis using IH that False by auto
  qed
  then show ?case using IH by simp
qed

lemma smallest_free_le: "smallest_free used K c \<Longrightarrow> c \<le> K"
  by (simp add: smallest_free_def)

text \<open>
  Claim C7. Let the entries of \<open>x\<close> be at most \<open>K\<close> (negative sentinels or colours),
  \<open>K\<close> a colour, and the vertices of colour \<open>K\<close> pairwise non-adjacent. Then first-fit
  never increases the maximum of \<open>x\<close>; every vertex of colour \<open>K\<close> receives the smallest
  colour in \<open>[0, K]\<close> that none of its coloured neighbours has, and every other entry is
  unchanged.
\<close>

theorem first_fit_never_increases:
  assumes "csr_wf n Ap Aj" and "length x = n" and "0 \<le> K"
    and "colors_at_most n x K" and "color_class_independent n Ap Aj x K"
  shows "length (vertex_coloring_first_fit n Ap Aj x K) = n \<and>
         (x \<noteq> [] \<longrightarrow> Max (set (vertex_coloring_first_fit n Ap Aj x K)) \<le> Max (set x)) \<and>
         (\<forall>i \<in> set [0..<n].
            if x ! i = K
            then smallest_free (neighbor_colors Ap Aj x i) K (vertex_coloring_first_fit n Ap Aj x K ! i)
            else vertex_coloring_first_fit n Ap Aj x K ! i = x ! i)"
proof -
  let ?x' = "vertex_coloring_first_fit n Ap Aj x K"
  have init: "ff_inv n Ap Aj K x x" using assms(2) by (simp add: ff_inv_def)
  have res: "ff_inv n Ap Aj K x ?x' \<and>
         (\<forall>v. (v \<in> set [0..<n] \<or> smallest_free (neighbor_colors Ap Aj x v) K (x ! v)) \<and> x ! v = K \<longrightarrow>
              smallest_free (neighbor_colors Ap Aj x v) K (?x' ! v))"
    unfolding vertex_coloring_first_fit_def
    by (rule first_fit_fold_inv [OF assms(1,3) assms(5) [unfolded color_class_independent_def] _ init]) simp
  then have len: "length ?x' = n"
    and q: "\<And>v. v < n \<Longrightarrow> ?x' ! v = x ! v \<or> (x ! v = K \<and> smallest_free (neighbor_colors Ap Aj x v) K (?x' ! v))"
    and sm: "\<And>v. v < n \<Longrightarrow> x ! v = K \<Longrightarrow> smallest_free (neighbor_colors Ap Aj x v) K (?x' ! v)"
    by (simp_all add: ff_inv_def)
  have pw: "?x' ! v \<le> x ! v" if "v < n" for v
    using q [OF that] smallest_free_le by fastforce
  have mx: "Max (set ?x') \<le> Max (set x)" if "x \<noteq> []"
  proof -
    have ne: "?x' \<noteq> []" using len assms(2) that by auto
    have "a \<le> Max (set x)" if "a \<in> set ?x'" for a
    proof -
      from that obtain v where v: "v < n" "?x' ! v = a" using len by (auto simp: in_set_conv_nth)
      have "x ! v \<in> set x" using v(1) assms(2) by simp
      then have "x ! v \<le> Max (set x)" by simp
      then show ?thesis using pw [OF v(1)] v(2) by simp
    qed
    then show ?thesis using ne by simp
  qed
  have third: "if x ! i = K
            then smallest_free (neighbor_colors Ap Aj x i) K (?x' ! i)
            else ?x' ! i = x ! i" if "i \<in> set [0..<n]" for i
    using that q [of i] sm [of i] by auto
  show ?thesis using len mx third by blast
qed

theorem first_fit_never_increases_witness:
  "csr_wf 5 path5_Ap path5_Aj \<and> length [0, 1, 2, -1, 2 :: int] = 5 \<and> (0::int) \<le> 2 \<and>
   colors_at_most 5 [0, 1, 2, -1, 2] 2 \<and> color_class_independent 5 path5_Ap path5_Aj [0, 1, 2, -1, 2] 2 \<and>
   vertex_coloring_first_fit 5 path5_Ap path5_Aj [0, 1, 2, -1, 2] 2 = [0, 1, 0, -1, 0] \<and>
   Max (set (vertex_coloring_first_fit 5 path5_Ap path5_Aj [0, 1, 2, -1, 2] 2)) \<le> Max (set [0, 1, 2, -1, 2]) \<and>
   smallest_free (neighbor_colors path5_Ap path5_Aj [0, 1, 2, -1, 2] 2) 2
     (vertex_coloring_first_fit 5 path5_Ap path5_Aj [0, 1, 2, -1, 2] 2 ! 2)"
proof -
  have h2: "length [0, 1, 2, -1, 2 :: int] = 5" and h3: "(0::int) \<le> 2" by simp_all
  have h4: "colors_at_most 5 [0, 1, 2, -1, 2] 2" by code_simp
  have h5: "color_class_independent 5 path5_Ap path5_Aj [0, 1, 2, -1, 2] 2" by code_simp
  have e: "vertex_coloring_first_fit 5 path5_Ap path5_Aj [0, 1, 2, -1, 2] 2 = [0, 1, 0, -1, 0]"
    by code_simp
  have two: "(2::nat) \<in> set [0..<5]" by simp
  note t = first_fit_never_increases [OF path5_wf h2 h3 h4 h5]
  have m: "Max (set (vertex_coloring_first_fit 5 path5_Ap path5_Aj [0, 1, 2, -1, 2] 2)) \<le> Max (set [0, 1, 2, -1, 2])"
    using t by simp
  have s: "smallest_free (neighbor_colors path5_Ap path5_Aj [0, 1, 2, -1, 2] 2) 2
     (vertex_coloring_first_fit 5 path5_Ap path5_Aj [0, 1, 2, -1, 2] 2 ! 2)"
    using t [THEN conjunct2, THEN conjunct2, THEN bspec, OF two] by simp
  show ?thesis using path5_wf h2 h3 h4 h5 e m s by blast
qed

section \<open>Colouring by repeated independent sets\<close>


lemma mis_serial_node_count:
  assumes d: "active \<noteq> C" "active \<noteq> F" "C \<noteq> F" and i: "i < n" and lx: "length x = n"
    and r: "mis_serial_node Ap Aj active C F i (N, x) = (N', x')"
  shows "length x' = n \<and> N' + card (C_set n C x) = N + card (C_set n C x') \<and> N \<le> N' \<and>
         (N' = N \<longrightarrow> x' = x) \<and> x' ! i \<noteq> active"
proof (cases "x ! i = active")
  case False
  then show ?thesis using r lx by (simp add: mis_serial_node_def)
next
  case True
  have x': "x' = mark_neighbors Ap Aj active F i (x[i := C])" and N': "N' = N + 1"
    using r True by (simp_all add: mis_serial_node_def)
  have lx': "length x' = n" using x' lx by simp
  have eq: "x' ! v = C \<longleftrightarrow> v = i \<or> x ! v = C" if "v < n" for v
    using that d lx by (auto simp: x' mark_neighbors_nth nth_list_update_total)
  have "C_set n C x' = insert i (C_set n C x)"
    using eq i by (auto simp: C_set_def)
  moreover have "i \<notin> C_set n C x" using True d by (simp add: C_set_def)
  moreover have "finite (C_set n C x)" by (simp add: C_set_def)
  ultimately have "card (C_set n C x') = card (C_set n C x) + 1" by simp
  moreover have "x' ! i \<noteq> active" using eq [OF i] d by simp
  ultimately show ?thesis using lx' N' by simp
qed

lemma mis_serial_fold_count:
  assumes d: "active \<noteq> C" "active \<noteq> F" "C \<noteq> F"
  shows "\<forall>i \<in> set ns. i < n \<Longrightarrow> length x = n \<Longrightarrow>
         fold (mis_serial_node Ap Aj active C F) ns (N, x) = (N', x') \<Longrightarrow>
         length x' = n \<and> N' + card (C_set n C x) = N + card (C_set n C x') \<and> N \<le> N' \<and> (N' = N \<longrightarrow> x' = x)"
proof (induction ns arbitrary: N x)
  case Nil
  then show ?case by simp
next
  case (Cons i ns)
  obtain N1 x1 where s: "mis_serial_node Ap Aj active C F i (N, x) = (N1, x1)"
    by (cases "mis_serial_node Ap Aj active C F i (N, x)")
  have i: "i < n" using Cons.prems(1) by simp
  note a = mis_serial_node_count [OF d i Cons.prems(2) s]
  have rest: "fold (mis_serial_node Ap Aj active C F) ns (N1, x1) = (N', x')"
    using Cons.prems(3) s by simp
  have b: "length x' = n \<and> N' + card (C_set n C x1) = N1 + card (C_set n C x') \<and> N1 \<le> N' \<and> (N' = N1 \<longrightarrow> x' = x1)"
    using Cons.prems(1) a rest by (intro Cons.IH) simp_all
  show ?case using a b by auto
qed

lemma mis_serial_node_frame:
  assumes d: "active \<noteq> C" "active \<noteq> F" and lx: "length x = n"
    and r: "mis_serial_node Ap Aj active C F i (N, x) = (N', x')"
  shows "mis_frame active C F x x'"
proof (cases "x ! i = active")
  case False
  then show ?thesis using r by (simp add: mis_serial_node_def mis_frame_refl)
next
  case True
  have x': "x' = mark_neighbors Ap Aj active F i (x[i := C])"
    using r True by (simp add: mis_serial_node_def)
  show ?thesis unfolding mis_frame_def
    using d lx True by (auto simp: x' mark_neighbors_nth nth_list_update_total)
qed

lemma mis_serial_fold_done:
  assumes d: "active \<noteq> C" "active \<noteq> F" "C \<noteq> F"
  shows "\<forall>i \<in> set ns. i < n \<Longrightarrow> length x = n \<Longrightarrow>
         fold (mis_serial_node Ap Aj active C F) ns (N, x) = (N', x') \<Longrightarrow>
         mis_frame active C F x x' \<and> (\<forall>v < n. v \<in> set ns \<or> x ! v \<noteq> active \<longrightarrow> x' ! v \<noteq> active)"
proof (induction ns arbitrary: N x)
  case Nil
  then show ?case by (simp add: mis_frame_refl)
next
  case (Cons i ns)
  obtain N1 x1 where s: "mis_serial_node Ap Aj active C F i (N, x) = (N1, x1)"
    by (cases "mis_serial_node Ap Aj active C F i (N, x)")
  have i: "i < n" using Cons.prems(1) by simp
  note a = mis_serial_node_count [OF d i Cons.prems(2) s]
  have fr: "mis_frame active C F x x1"
    by (rule mis_serial_node_frame [OF d(1,2) Cons.prems(2) s])
  have rest: "fold (mis_serial_node Ap Aj active C F) ns (N1, x1) = (N', x')"
    using Cons.prems(3) s by simp
  have b: "mis_frame active C F x1 x' \<and> (\<forall>v < n. v \<in> set ns \<or> x1 ! v \<noteq> active \<longrightarrow> x' ! v \<noteq> active)"
    using Cons.prems(1) a rest by (intro Cons.IH) simp_all
  have fr': "mis_frame active C F x x'"
    using mis_frame_trans [OF d(1,2) fr] b by simp
  have "x' ! v \<noteq> active" if "v < n" "v \<in> set (i # ns) \<or> x ! v \<noteq> active" for v
  proof -
    have "v \<in> set ns \<or> x1 ! v \<noteq> active"
      using that a mis_frame_active [OF d(1,2) fr, of v] Cons.prems(2) by auto
    then show ?thesis using b that(1) by blast
  qed
  then show ?case using fr' by simp
qed

lemma coloring_step:
  assumes wf: "csr_wf n Ap Aj" and sym: "csr_symmetric n Ap Aj"
    and inv: "col_inv n Ap Aj N K x" and lt: "N < n"
    and r: "maximal_independent_set_serial n Ap Aj (-1 - K) K (-2 - K) x = (c, x')"
  shows "col_inv n Ap Aj (N + c) (K + 1) x' \<and> 0 < c"
proof -
  let ?A = "-1 - K" and ?F = "-2 - K"
  have lx: "length x = n" and K: "0 \<le> K"
    and ent: "\<And>v. v < n \<Longrightarrow> (0 \<le> x ! v \<and> x ! v < K) \<or> x ! v = ?A"
    and N: "N = card {v. v < n \<and> 0 \<le> x ! v}"
    and pr: "\<And>i j. i < n \<Longrightarrow> j \<in> set (nbrs Ap Aj i) \<Longrightarrow> i \<noteq> j \<Longrightarrow> 0 \<le> x ! i \<Longrightarrow> 0 \<le> x ! j \<Longrightarrow> x ! i \<noteq> x ! j"
    using inv by (auto simp: col_inv_def)
  have d: "?A \<noteq> K" "?A \<noteq> ?F" "K \<noteq> ?F" using K by simp_all
  have f: "fold (mis_serial_node Ap Aj ?A K ?F) [0..<n] (0, x) = (c, x')"
    using r by (simp add: maximal_independent_set_serial_def)
  have cnt: "length x' = n \<and> c + card (C_set n K x) = 0 + card (C_set n K x') \<and> 0 \<le> c \<and> (c = 0 \<longrightarrow> x' = x)"
    by (rule mis_serial_fold_count [OF d _ lx f]) simp
  have fin: "mis_frame ?A K ?F x x' \<and> (\<forall>v < n. v \<in> set [0..<n] \<or> x ! v \<noteq> ?A \<longrightarrow> x' ! v \<noteq> ?A)"
    by (rule mis_serial_fold_done [OF d _ lx f]) simp
  have sinv: "serial_inv Ap Aj ?A K ?F x (snd (fold (mis_serial_node Ap Aj ?A K ?F) [0..<n] (0, x)))"
    by (rule mis_serial_fold_inv [OF wf sym d lx _ serial_inv_init [OF d(1)]]) simp
  then have ind: "independent Ap Aj (promoted ?A K x x')" using f by (simp add: serial_inv_def)
  note cnt1 = cnt [THEN conjunct1] and cnt2 = cnt [THEN conjunct2, THEN conjunct1]
    and cnt4 = cnt [THEN conjunct2, THEN conjunct2, THEN conjunct2]
  have lx': "length x' = n" by (rule cnt1)
  have fr: "\<And>v. v < n \<Longrightarrow> x' ! v = x ! v \<or> (x ! v = ?A \<and> (x' ! v = K \<or> x' ! v = ?F))"
    using fin lx by (simp add: mis_frame_def)
  have nact: "\<And>v. v < n \<Longrightarrow> x' ! v \<noteq> ?A" using fin by simp
  have ent': "(0 \<le> x' ! v \<and> x' ! v < K \<and> x' ! v = x ! v) \<or> (x' ! v = K \<and> x ! v = ?A) \<or>
              (x' ! v = ?F \<and> x ! v = ?A)" if "v < n" for v
  proof -
    from fr [OF that] show ?thesis
    proof
      assume e: "x' ! v = x ! v"
      from ent [OF that] show ?thesis
      proof
        assume "0 \<le> x ! v \<and> x ! v < K"
        then show ?thesis using e by simp
      next
        assume "x ! v = ?A"
        then show ?thesis using e nact [OF that] by simp
      qed
    next
      assume "x ! v = ?A \<and> (x' ! v = K \<or> x' ! v = ?F)"
      then show ?thesis by blast
    qed
  qed
  have nk: "x ! v \<noteq> K" if "v < n" for v using ent [OF that] K by arith
  have noK: "C_set n K x = {}" unfolding C_set_def using nk by blast
  have c: "c = card (C_set n K x')" using cnt2 noK by simp
  have mem: "0 \<le> x' ! v \<longleftrightarrow> 0 \<le> x ! v \<or> x' ! v = K" if "v < n" for v
    using ent' [OF that] K by arith
  have nmem: "\<not> (0 \<le> x ! v \<and> x' ! v = K)" if "v < n" for v
    using ent' [OF that] K by arith
  have split: "{v. v < n \<and> 0 \<le> x' ! v} = {v. v < n \<and> 0 \<le> x ! v} \<union> C_set n K x'"
    using mem by (auto simp: C_set_def)
  have disj: "{v. v < n \<and> 0 \<le> x ! v} \<inter> C_set n K x' = {}"
    using nmem by (auto simp: C_set_def)
  have N': "N + c = card {v. v < n \<and> 0 \<le> x' ! v}"
    unfolding split N c by (rule card_Un_disjoint [symmetric, OF _ _ disj]) (simp_all add: C_set_def)
  have prop': "x' ! i \<noteq> x' ! j"
    if "i < n" "j \<in> set (nbrs Ap Aj i)" "i \<noteq> j" "0 \<le> x' ! i" "0 \<le> x' ! j" for i j
  proof -
    have jn: "j < n" using wf that(1,2) unfolding csr_wf_def by auto
    from ent' [OF that(1)] that(4) K consider (old) "x' ! i < K" "x' ! i = x ! i" | (new) "x' ! i = K" "x ! i = ?A"
      by arith
    then show ?thesis
    proof cases
      case old
      from ent' [OF jn] that(5) K consider (old') "x' ! j < K" "x' ! j = x ! j" | (new') "x' ! j = K"
        by arith
      then show ?thesis
      proof cases
        case old'
        then show ?thesis using pr [OF that(1,2,3)] old that(4,5) by simp
      next
        case new'
        then show ?thesis using old by simp
      qed
    next
      case new
      show ?thesis
      proof
        assume e: "x' ! i = x' ! j"
        then have "x' ! j = K" using new by simp
        then have "x ! j = ?A" using ent' [OF jn] K by arith
        then have "j \<in> set (promoted ?A K x x')" "i \<in> set (promoted ?A K x x')"
          using new e jn that(1) lx by (simp_all add: promoted_def)
        then show False using ind that(2,3) by (auto simp: independent_def)
      qed
    qed
  qed
  have pos: "0 < c"
  proof (rule ccontr)
    assume "\<not> 0 < c"
    then have same: "x' = x" using cnt4 by simp
    have "\<exists>v < n. \<not> 0 \<le> x ! v"
    proof (rule ccontr)
      assume "\<not> (\<exists>v < n. \<not> 0 \<le> x ! v)"
      then have "{v. v < n \<and> 0 \<le> x ! v} = {..<n}" by auto
      then show False using N lt by simp
    qed
    then obtain v where v: "v < n" "\<not> 0 \<le> x ! v" by blast
    then have "x ! v = ?A" using ent [OF v(1)] by arith
    then show False using nact [OF v(1)] same by simp
  qed
  have "col_inv n Ap Aj (N + c) (K + 1) x'"
    unfolding col_inv_def
  proof (intro conjI allI impI ballI)
    show "length x' = n" by (rule lx')
    show "0 \<le> K + 1" using K by simp
    show "N + c = card {v. v < n \<and> 0 \<le> x' ! v}" by (rule N')
  next
    fix v assume "v < n"
    from ent' [OF this] show "(0 \<le> x' ! v \<and> x' ! v < K + 1) \<or> x' ! v = -1 - (K + 1)"
      using K by arith
  next
    fix i j assume "i < n" "j \<in> set (nbrs Ap Aj i)" "i \<noteq> j \<and> 0 \<le> x' ! i \<and> 0 \<le> x' ! j"
    then show "x' ! i \<noteq> x' ! j" using prop' by blast
  qed
  then show ?thesis using pos by simp
qed

lemma coloring_loop_total:
  assumes wf: "csr_wf n Ap Aj" and sym: "csr_symmetric n Ap Aj"
  shows "col_inv n Ap Aj N K x \<Longrightarrow>
         \<exists>K' x'. coloring_mis_loop n Ap Aj N K x = Some (K', x') \<and> length x' = n \<and>
            (\<forall>i \<in> set [0..<n]. 0 \<le> x' ! i \<and> x' ! i < K') \<and> proper_coloring n Ap Aj x'"
proof (induction "n - N" arbitrary: N K x rule: less_induct)
  case less
  show ?case
  proof (cases "N < n")
    case False
    have lx: "length x = n"
      and ent: "\<And>v. v < n \<Longrightarrow> (0 \<le> x ! v \<and> x ! v < K) \<or> x ! v = -1 - K"
      and N: "N = card {v. v < n \<and> 0 \<le> x ! v}"
      and pr: "\<And>i j. i < n \<Longrightarrow> j \<in> set (nbrs Ap Aj i) \<Longrightarrow> i \<noteq> j \<Longrightarrow> 0 \<le> x ! i \<Longrightarrow> 0 \<le> x ! j \<Longrightarrow> x ! i \<noteq> x ! j"
      and K: "0 \<le> K"
      using less.prems by (auto simp: col_inv_def)
    have "{v. v < n \<and> 0 \<le> x ! v} = {..<n}"
    proof (rule card_subset_eq)
      show "finite {..<n}" by simp
      show "{v. v < n \<and> 0 \<le> x ! v} \<subseteq> {..<n}" by auto
      show "card {v. v < n \<and> 0 \<le> x ! v} = card {..<n}"
      proof -
        have "card {v. v < n \<and> 0 \<le> x ! v} \<le> card {..<n}" by (rule card_mono) auto
        then show ?thesis using N False by simp
      qed
    qed
    then have all: "\<And>v. v < n \<Longrightarrow> 0 \<le> x ! v" by auto
    have rng: "\<forall>i \<in> set [0..<n]. 0 \<le> x ! i \<and> x ! i < K"
      using all ent K by fastforce
    have pc: "proper_coloring n Ap Aj x"
      unfolding proper_coloring_def
    proof (intro ballI impI)
      fix i j assume i: "i \<in> set [0..<n]" and j: "j \<in> set (nbrs Ap Aj i)" and ne: "i \<noteq> j"
      have jn: "j < n" using wf i j unfolding csr_wf_def by auto
      show "x ! i \<noteq> x ! j" using pr [OF _ j ne] all i jn by simp
    qed
    have "coloring_mis_loop n Ap Aj N K x = Some (K, x)"
      using False by (subst coloring_mis_loop.simps) simp
    then show ?thesis using lx rng pc by simp
  next
    case True
    obtain c x1 where s: "maximal_independent_set_serial n Ap Aj (-1 - K) K (-2 - K) x = (c, x1)"
      by (cases "maximal_independent_set_serial n Ap Aj (-1 - K) K (-2 - K) x")
    from coloring_step [OF wf sym less.prems True s]
    have inv1: "col_inv n Ap Aj (N + c) (K + 1) x1" and pos: "0 < c" by simp_all
    have "n - (N + c) < n - N" using True pos by simp
    from less.hyps [OF this inv1] obtain K' x' where
      *: "coloring_mis_loop n Ap Aj (N + c) (K + 1) x1 = Some (K', x')" "length x' = n"
         "\<forall>i \<in> set [0..<n]. 0 \<le> x' ! i \<and> x' ! i < K'" "proper_coloring n Ap Aj x'"
      by blast
    have "coloring_mis_loop n Ap Aj N K x = coloring_mis_loop n Ap Aj (N + c) (K + 1) x1"
      using True s by (subst coloring_mis_loop.simps) simp
    then show ?thesis using * by simp
  qed
qed

lemma col_inv_init: "col_inv n Ap Aj 0 0 (replicate n (-1))"
  by (simp add: col_inv_def)

text \<open>
  Claim C6. On a symmetric graph \<^verbatim>\<open>vertex_coloring_mis\<close> returns a value \<open>K\<close> with every
  colour \<open>x[i]\<close> in \<open>[0, K)\<close> and different colours at the two ends of every edge
  \<open>(i, j)\<close> with \<open>i \<noteq> j\<close>; on the complete graph K4 it returns 4 with the colours
  0, 1, 2, 3.
\<close>

theorem vertex_coloring_mis_proper:
  assumes "csr_wf n Ap Aj" and "csr_symmetric n Ap Aj" and "length x = n"
  shows "(\<exists>K x'. vertex_coloring_mis n Ap Aj x = Some (K, x') \<and> length x' = n \<and>
            (\<forall>i \<in> set [0..<n]. 0 \<le> x' ! i \<and> x' ! i < K) \<and> proper_coloring n Ap Aj x') \<and>
         (n = 4 \<and> Ap = K4_Ap \<and> Aj = K4_Aj \<longrightarrow> vertex_coloring_mis n Ap Aj x = Some (4, [0, 1, 2, 3]))"
proof -
  have fill: "fill_rows n (-1) x = replicate n (-1)" using assms(3) by (simp add: fill_rows_def)
  have a: "\<exists>K x'. vertex_coloring_mis n Ap Aj x = Some (K, x') \<and> length x' = n \<and>
            (\<forall>i \<in> set [0..<n]. 0 \<le> x' ! i \<and> x' ! i < K) \<and> proper_coloring n Ap Aj x'"
    unfolding vertex_coloring_mis_def fill
    by (rule coloring_loop_total [OF assms(1,2) col_inv_init])
  have "coloring_mis_loop 4 K4_Ap K4_Aj 0 0 (replicate 4 (-1)) = Some (4, [0, 1, 2, 3])"
    by code_simp
  then have b: "n = 4 \<and> Ap = K4_Ap \<and> Aj = K4_Aj \<longrightarrow> vertex_coloring_mis n Ap Aj x = Some (4, [0, 1, 2, 3])"
    unfolding vertex_coloring_mis_def fill by simp
  show ?thesis using a b by simp
qed

lemma K4_wf: "csr_wf 4 K4_Ap K4_Aj"
  by code_simp

lemma K4_symmetric: "csr_symmetric 4 K4_Ap K4_Aj"
  by code_simp

theorem vertex_coloring_mis_proper_witness:
  "csr_wf 4 K4_Ap K4_Aj \<and> csr_symmetric 4 K4_Ap K4_Aj \<and> length [7, 7, 7, 7 :: int] = 4 \<and>
   vertex_coloring_mis 4 K4_Ap K4_Aj [7, 7, 7, 7] = Some (4, [0, 1, 2, 3]) \<and>
   (\<exists>K x'. vertex_coloring_mis 4 K4_Ap K4_Aj [7, 7, 7, 7] = Some (K, x') \<and> length x' = 4 \<and>
            (\<forall>i \<in> set [0..<4]. 0 \<le> x' ! i \<and> x' ! i < K) \<and> proper_coloring 4 K4_Ap K4_Aj x')"
proof -
  have l: "length [7, 7, 7, 7 :: int] = 4" by simp
  note t = vertex_coloring_mis_proper [OF K4_wf K4_symmetric l]
  have e: "vertex_coloring_mis 4 K4_Ap K4_Aj [7, 7, 7, 7] = Some (4, [0, 1, 2, 3])"
    using t by blast
  have g: "\<exists>K x'. vertex_coloring_mis 4 K4_Ap K4_Aj [7, 7, 7, 7] = Some (K, x') \<and> length x' = 4 \<and>
            (\<forall>i \<in> set [0..<4]. 0 \<le> x' ! i \<and> x' ! i < K) \<and> proper_coloring 4 K4_Ap K4_Aj x'"
    using t by blast
  show ?thesis
    using K4_wf K4_symmetric l e g by blast
qed

section \<open>Cluster incidence\<close>


lemma set_insert_by: "set (insert_by lt x ys) = insert x (set ys)"
  by (induction ys) auto

lemma distinct_insert_by: "distinct ys \<Longrightarrow> x \<notin> set ys \<Longrightarrow> distinct (insert_by lt x ys)"
  by (induction ys) (auto simp: set_insert_by)

lemma sorted_insert_by:
  assumes total: "\<And>a b. a \<noteq> b \<Longrightarrow> lt a b \<or> lt b a"
    and trans: "\<And>a b c. lt a b \<Longrightarrow> lt b c \<Longrightarrow> lt a c"
  shows "sorted_wrt lt ys \<Longrightarrow> x \<notin> set ys \<Longrightarrow> sorted_wrt lt (insert_by lt x ys)"
proof (induction ys)
  case Nil
  show ?case by simp
next
  case (Cons y ys)
  show ?case
  proof (cases "lt y x")
    case True
    have "sorted_wrt lt (insert_by lt x ys)" using Cons by simp
    moreover have "\<forall>z \<in> set (insert_by lt x ys). lt y z"
      using Cons.prems(1) True by (simp add: set_insert_by)
    ultimately show ?thesis using True by simp
  next
    case False
    have "x \<noteq> y" using Cons.prems(2) by auto
    then have xy: "lt x y" using total [of x y] False by blast
    have "\<forall>z \<in> set ys. lt x z" using Cons.prems(1) trans [OF xy] by auto
    then show ?thesis using False xy Cons.prems(1) by simp
  qed
qed

lemma sort_by_sorted:
  assumes total: "\<And>a b. a \<noteq> b \<Longrightarrow> lt a b \<or> lt b a"
    and trans: "\<And>a b c. lt a b \<Longrightarrow> lt b c \<Longrightarrow> lt a c"
  shows "distinct xs \<Longrightarrow>
         distinct (sort_by lt xs) \<and> set (sort_by lt xs) = set xs \<and> sorted_wrt lt (sort_by lt xs)"
proof (induction xs)
  case Nil
  show ?case by (simp add: sort_by_def)
next
  case (Cons x xs)
  have IH: "distinct (sort_by lt xs)" "set (sort_by lt xs) = set xs" "sorted_wrt lt (sort_by lt xs)"
    using Cons by simp_all
  have step: "sort_by lt (x # xs) = insert_by lt x (sort_by lt xs)" by (simp add: sort_by_def)
  have nin: "x \<notin> set (sort_by lt xs)" using Cons.prems IH(2) by simp
  show ?case unfolding step
    using distinct_insert_by [OF IH(1) nin] sorted_insert_by [OF total trans IH(3) nin] IH(2)
    by (simp add: set_insert_by)
qed

lemma cluster_cmp_total: "a \<noteq> b \<Longrightarrow> cluster_cmp cm a b \<or> cluster_cmp cm b a"
  by (auto simp: cluster_cmp_def)

lemma cluster_cmp_trans: "cluster_cmp cm a b \<Longrightarrow> cluster_cmp cm b c \<Longrightarrow> cluster_cmp cm a c"
  by (auto simp: cluster_cmp_def)

lemma then_do_Inr: "then_do m f = Inr r \<Longrightarrow> \<exists>v. m = Inr v \<and> f v = Inr r"
  by (cases m) (simp_all add: then_do_def)

lemma cluster_node_incidence_ICi:
  assumes "cluster_node_incidence ndebug n k cm ICp0 L0 = Inr (ICp, ICi, L)"
  shows "ICi = sorted_ICi n cm"
  using assms unfolding cluster_node_incidence_def Let_def
  by (auto dest!: then_do_Inr)

lemma sorted_ICi_sorted:
  "distinct (sorted_ICi n cm) \<and> set (sorted_ICi n cm) = set [0..<n] \<and>
   sorted_wrt (cluster_cmp cm) (sorted_ICi n cm)"
  unfolding sorted_ICi_def
  by (rule sort_by_sorted [OF cluster_cmp_total cluster_cmp_trans]) simp_all

text \<open>
  Three clusters, compiled with \<^verbatim>\<open>NDEBUG\<close>: the call returns, the closing blocks being
  without effect. With asserts enabled \<^verbatim>\<open>assert(m >= 0 && m < ICp[a+1] - ICp[a])\<close>
  aborts the same call, cluster 0 having \<open>ICp[1] - ICp[0] = 0\<close>.
\<close>

lemma incidence_three_clusters:
  "cluster_node_incidence True 3 3 [0, 1, 2] [7, 7, 7, 7] [9, 9, 9] = Inr ([0, 0, 2, 3], [2, 1, 0], [0, 1, 0]) \<and>
   cluster_node_incidence False 3 3 [0, 1, 2] [7, 7, 7, 7] [9, 9, 9] = Inl AssertionFailed"
  by code_simp

text \<open>
  Claim C3. \<open>ICi\<close> is written by the fill loop and by \<^verbatim>\<open>std::sort\<close> only, so from the
  sort on, and when \<^verbatim>\<open>cluster_node_incidence\<close> returns, it is the permutation of the
  node indices \<open>0..n-1\<close> in descending order of cluster label, equal labels in
  descending order of node index. This holds for every \<open>cm\<close>, with asserts enabled or
  compiled out, and does not depend on the statements after the sort, which abort many
  calls when asserts are enabled.
\<close>

theorem incidence_ICi_sorted_descending:
  "distinct (sorted_ICi n cm) \<and> set (sorted_ICi n cm) = set [0..<n] \<and>
   sorted_wrt (\<lambda>i j. cm ! i > cm ! j \<or> (cm ! i = cm ! j \<and> i > j)) (sorted_ICi n cm) \<and>
   (cluster_node_incidence ndebug n k cm ICp0 L0 = Inr (ICp, ICi, L) \<longrightarrow>
      ICi = sorted_ICi n cm \<and> distinct ICi \<and> set ICi = set [0..<n] \<and>
      sorted_wrt (\<lambda>i j. cm ! i > cm ! j \<or> (cm ! i = cm ! j \<and> i > j)) ICi)"
proof -
  have s: "distinct (sorted_ICi n cm)" "set (sorted_ICi n cm) = set [0..<n]"
    "sorted_wrt (cluster_cmp cm) (sorted_ICi n cm)"
    using sorted_ICi_sorted [of n cm] by simp_all
  have c: "cluster_cmp cm = (\<lambda>i j. cm ! i > cm ! j \<or> (cm ! i = cm ! j \<and> i > j))"
    by (intro ext) (simp add: cluster_cmp_def)
  have r: "ICi = sorted_ICi n cm" if "cluster_node_incidence ndebug n k cm ICp0 L0 = Inr (ICp, ICi, L)"
    by (rule cluster_node_incidence_ICi [OF that])
  show ?thesis using s r unfolding c by blast
qed

theorem incidence_ICi_sorted_descending_witness:
  "cluster_node_incidence True 4 3 [1, 2, 0, 1] [7, 7, 7, 7] [9, 9, 9, 9] =
     Inr ([0, 0, 3, 4], [1, 3, 0, 2], [0, 1, 2, 0]) \<and>
   sorted_ICi 4 [1, 2, 0, 1] = [1, 3, 0, 2] \<and>
   distinct [1, 3, 0, 2 :: nat] \<and> set [1, 3, 0, 2 :: nat] = set [0..<4] \<and>
   sorted_wrt (\<lambda>i j. [1, 2, 0, 1 :: int] ! i > [1, 2, 0, 1] ! j \<or> ([1, 2, 0, 1 :: int] ! i = [1, 2, 0, 1] ! j \<and> i > j))
     [1, 3, 0, 2]"
proof -
  have e: "cluster_node_incidence True 4 3 [1, 2, 0, 1] [7, 7, 7, 7] [9, 9, 9, 9] =
     Inr ([0, 0, 3, 4], [1, 3, 0, 2], [0, 1, 2, 0])"
    by code_simp
  from incidence_ICi_sorted_descending [of 4 "[1, 2, 0, 1]" True 3 "[7, 7, 7, 7]" "[9, 9, 9, 9]"
      "[0, 0, 3, 4]" "[1, 3, 0, 2]" "[0, 1, 2, 0]"] e
  have r: "[1, 3, 0, 2] = sorted_ICi 4 [1, 2, 0, 1] \<and> distinct [1, 3, 0, 2 :: nat] \<and>
        set [1, 3, 0, 2 :: nat] = set [0..<4] \<and>
        sorted_wrt (\<lambda>i j. [1, 2, 0, 1 :: int] ! i > [1, 2, 0, 1] ! j \<or> ([1, 2, 0, 1 :: int] ! i = [1, 2, 0, 1] ! j \<and> i > j))
          [1, 3, 0, 2]"
    by blast
  have s: "sorted_ICi 4 [1, 2, 0, 1] = [1, 3, 0, 2]"
    using r [THEN conjunct1] by (rule sym)
  show ?thesis
    by (intro conjI e s r [THEN conjunct2, THEN conjunct1]
        r [THEN conjunct2, THEN conjunct2, THEN conjunct1]
        r [THEN conjunct2, THEN conjunct2, THEN conjunct2])
qed

text \<open>
  Claim C2 says that the arrays returned convert between global and local indices in
  both directions. The code does not achieve it: for two nodes in one cluster its own
  closing check \<^verbatim>\<open>assert(i == ICi[ICp[a] + m])\<close> fails, and compiled with
  \<^verbatim>\<open>NDEBUG\<close> it returns \<open>ICp = [0, 2]\<close>, \<open>ICi = [1, 0]\<close>, \<open>L = [0, 1]\<close>, where
  \<open>ICi[ICp[cm[0]] + L[0]] = 1\<close>, not 0.
\<close>

theorem incidence_round_trip_broken:
  "cluster_node_incidence False 2 1 [0, 0] [p0, p1] [l0, l1] = Inl AssertionFailed \<and>
   cluster_node_incidence True 2 1 [0, 0] [p0, p1] [l0, l1] = Inr ([0, 2], [1, 0], [0, 1]) \<and>
   \<not> incidence_round_trip 2 1 [0, 0] [0, 2] [1, 0] [0, 1] \<and>
   [1, 0 :: nat] ! nat ([0, 2] ! nat ([0, 0] ! 0) + [0, 1] ! 0) \<noteq> 0"
  by (simp add: cluster_node_incidence_def sorted_ICi_def sort_by_def cluster_cmp_def then_do_def store_def load_def
      assert_that_def ICp_step_def L_outer_def L_inner_def global_local_check_def
      local_global_check_def local_global_inner_def incidence_round_trip_def upt_rec numeral_nat)

theorem incidence_round_trip_broken_witness:
  "cluster_node_incidence False 2 1 [0, 0] [7, 7] [9, 9] = Inl AssertionFailed \<and>
   cluster_node_incidence True 2 1 [0, 0] [7, 7] [9, 9] = Inr ([0, 2], [1, 0], [0, 1]) \<and>
   \<not> incidence_round_trip 2 1 [0, 0] [0, 2] [1, 0] [0, 1]"
  using incidence_round_trip_broken [of 7 7 9 9] by blast

section \<open>Balanced Bellman-Ford does not always converge\<close>


lemma path3_sizes:
  "fold_result (count_cluster [0, 0, 1]) [0..<3] (replicate 2 0) = Inr [2, 1]"
  by code_simp

lemma path3_first_sweep:
  "bfb_sweep True 3 path3_Ap path3_Aj path3_Ax
     \<lparr>dist = [0, 1, 0], label = [0, 0, 1], predecessor = replicate 3 (-1),
      pred_count = replicate 3 0, cs = [2, 1], change = False\<rparr> = Inr path3_cycle"
  by code_simp

lemma path3_sweep_cycle:
  "bfb_sweep True 3 path3_Ap path3_Aj path3_Ax path3_cycle = Inr path3_cycle"
  by code_simp

lemma path3_change: "change path3_cycle"
  by (simp add: path3_cycle_def)

lemma path3_cycle_never_returns:
  "bfb_loop True 3 path3_Ap path3_Aj path3_Ax iteration path3_cycle = None"
proof -
  let ?P = "\<lambda>ndebug n Ap Aj Ax (it::nat) s (y :: error + int bfb_state).
      \<not> (ndebug \<and> n = 3 \<and> Ap = path3_Ap \<and> Aj = path3_Aj \<and> Ax = path3_Ax \<and> s = path3_cycle)"
  have *: "?P ndebug n Ap Aj Ax it s y"
    if "bfb_loop ndebug n Ap Aj Ax it s = Some y" for ndebug n Ap Aj Ax it s y
  proof (rule bfb_loop.raw_induct [where P = ?P, OF _ that])
    fix f ndebug n Ap Aj Ax it s y
    assume IH: "\<And>ndebug n Ap Aj Ax it s y. f ndebug n Ap Aj Ax it s = Some y \<Longrightarrow> ?P ndebug n Ap Aj Ax it s y"
      and eq: "(case bfb_sweep ndebug n Ap Aj Ax s of
                  Inl e \<Rightarrow> Some (Inl e)
                | Inr s' \<Rightarrow>
                    if ndebug then
                      (if change s' then f ndebug n Ap Aj Ax it s' else Some (Inr s'))
                    else if \<not> it + 1 < n * n * n then Some (Inl AssertionFailed)
                    else if change s' then f ndebug n Ap Aj Ax (it + 1) s'
                    else Some (Inr s')) = Some y"
    show "?P ndebug n Ap Aj Ax it s y"
    proof
      assume a: "ndebug \<and> n = 3 \<and> Ap = path3_Ap \<and> Aj = path3_Aj \<and> Ax = path3_Ax \<and> s = path3_cycle"
      then have "f True 3 path3_Ap path3_Aj path3_Ax it path3_cycle = Some y"
        using eq by (simp add: path3_sweep_cycle path3_change)
      from IH [OF this] show False by simp
    qed
  qed
  have "bfb_loop True 3 path3_Ap path3_Aj path3_Ax iteration path3_cycle \<noteq> Some y" for y
    using * [of True 3 path3_Ap path3_Aj path3_Ax iteration path3_cycle y] by blast
  then have "\<forall>y. bfb_loop True 3 path3_Ap path3_Aj path3_Ax iteration path3_cycle \<noteq> Some y" by blast
  then show ?thesis by (simp only: not_Some_eq)
qed

text \<open>
  Claim C8 says that on every valid input the loop reaches a sweep without change in
  fewer than \<open>n\<^sup>3\<close> iterations. The code does not: on the path 0-1-2 with unit
  weights, \<open>d = [0, 1, 0]\<close> and \<open>cm = [0, 0, 1]\<close> (centres 0 and 2), node 1 is at equal
  distance from both centres and every sweep moves it to cluster 0 and back to cluster 1,
  because a move from a cluster of size \<open>s\<close> to one of size \<open>s - 1\<close> satisfies
  \<^verbatim>\<open>cs[cm[j]] < cs[cm[i]]\<close> and so does the move back. With asserts enabled the safety
  check aborts the call at iteration 27; compiled with \<^verbatim>\<open>NDEBUG\<close> the call never
  returns. The same happens on the path 0-1-2-3-4 with the centres 0 and 4 and the
  initialisation of \<^verbatim>\<open>lloyd_cluster_exact\<close>. On a single node the first sweep changes
  nothing, yet \<^verbatim>\<open>assert(++iteration < 1)\<close> fails.
\<close>

theorem bellman_ford_balanced_cycles:
  "bellman_ford_balanced False 3 2 path3_Ap path3_Aj path3_Ax [0, 1, 0] [0, 0, 1] = Some (Inl AssertionFailed) \<and>
   bellman_ford_balanced True 3 2 path3_Ap path3_Aj path3_Ax [0, 1, 0] [0, 0, 1] = None \<and>
   bellman_ford_balanced False 1 1 [0, 0] [] ([] :: int list) [0] [0] = Some (Inl AssertionFailed) \<and>
   bellman_ford_balanced False 5 2 path5_Ap path5_Aj [1, 1, 1, 1, 1, 1, 1, 1 :: int]
     [0, 1000, 1000, 1000, 0] [0, -1, -1, -1, 1] = Some (Inl AssertionFailed)"
proof -
  have a: "bellman_ford_balanced False 3 2 path3_Ap path3_Aj path3_Ax [0, 1, 0] [0, 0, 1] = Some (Inl AssertionFailed)"
    by code_simp
  have "bfb_loop True 3 path3_Ap path3_Aj path3_Ax 0
          \<lparr>dist = [0, 1, 0], label = [0, 0, 1], predecessor = replicate 3 (-1),
           pred_count = replicate 3 0, cs = [2, 1], change = False\<rparr> = None"
    by (subst bfb_loop.simps) (simp add: path3_first_sweep path3_change path3_cycle_never_returns)
  then have b: "bellman_ford_balanced True 3 2 path3_Ap path3_Aj path3_Ax [0, 1, 0] [0, 0, 1] = None"
    by (simp add: bellman_ford_balanced_def path3_sizes)
  have c: "bellman_ford_balanced False 1 1 [0, 0] [] ([] :: int list) [0] [0] = Some (Inl AssertionFailed)"
    by code_simp
  have d: "bellman_ford_balanced False 5 2 path5_Ap path5_Aj [1, 1, 1, 1, 1, 1, 1, 1 :: int]
     [0, 1000, 1000, 1000, 0] [0, -1, -1, -1, 1] = Some (Inl AssertionFailed)"
    by code_simp
  show ?thesis using a b c d by blast
qed

section \<open>Walks, and the frontier of the search\<close>


lemma walk_in_range:
  assumes wf: "csr_wf n Ap Aj"
  shows "u < n \<Longrightarrow> walk Ap Aj k u v \<Longrightarrow> v < n"
proof (induction k arbitrary: u)
  case 0
  then show ?case by simp
next
  case (Suc k)
  from Suc.prems(2) obtain w where w: "w \<in> set (nbrs Ap Aj u)" "walk Ap Aj k w v" by auto
  have "w < n" by (rule nbrs_in_range [OF wf Suc.prems(1) w(1)])
  then show ?case using Suc.IH w(2) by blast
qed

lemma walk_snoc:
  "walk Ap Aj (Suc k) u v \<longleftrightarrow> (\<exists>w. walk Ap Aj k u w \<and> v \<in> set (nbrs Ap Aj w))"
proof (induction k arbitrary: u)
  case 0
  show ?case by auto
next
  case (Suc k)
  have "walk Ap Aj (Suc (Suc k)) u v \<longleftrightarrow> (\<exists>a \<in> set (nbrs Ap Aj u). walk Ap Aj (Suc k) a v)"
    by simp
  also have "\<dots> \<longleftrightarrow> (\<exists>a \<in> set (nbrs Ap Aj u). \<exists>w. walk Ap Aj k a w \<and> v \<in> set (nbrs Ap Aj w))"
    using Suc.IH by simp
  also have "\<dots> \<longleftrightarrow> (\<exists>w. walk Ap Aj (Suc k) u w \<and> v \<in> set (nbrs Ap Aj w))"
    by auto
  finally show ?case .
qed

lemma within_steps_iff: "within_steps Ap Aj k u v \<longleftrightarrow> (\<exists>m \<le> k. walk Ap Aj m u v)"
proof -
  have "set [0..<Suc k] = {..k}" by auto
  then show ?thesis unfolding within_steps_def by blast
qed

lemma bfs_visit_basic:
  assumes J: "bfs_basic n (order, level, N)" and j: "j < n" and c: "c \<noteq> -1"
    and r: "bfs_visit c j (order, level, N) = (order', level', N')"
  shows "bfs_basic n (order', level', N') \<and> N \<le> N' \<and>
         (\<forall>p < N. order' ! p = order ! p) \<and> (\<forall>p \<ge> N'. order' ! p = order ! p) \<and>
         (\<forall>v < n. level' ! v = (if v = j \<and> level ! v = -1 then c else level ! v))"
proof (cases "level ! j = -1")
  case False
  then have "order' = order" "level' = level" "N' = N" using r by (simp_all add: bfs_visit_def)
  then show ?thesis using J False by auto
next
  case True
  have lo: "length order = n" and ll: "length level = n" and Nn: "N \<le> n"
    and dist: "distinct (take N order)"
    and vis: "set (take N order) = {v. v < n \<and> level ! v \<noteq> -1}"
    using J by (simp_all add: bfs_basic_def)
  have res: "order' = order[N := j]" "level' = level[j := c]" "N' = N + 1"
    using r True by (simp_all add: bfs_visit_def)
  have jn: "j \<notin> set (take N order)" using vis True by simp
  have "card (set (take N order)) = N" using dist lo Nn by (simp add: distinct_card)
  moreover have "set (take N order) \<subseteq> {..<n} - {j}" using vis jn by auto
  then have "card (set (take N order)) \<le> card ({..<n} - {j})" by (intro card_mono) simp_all
  moreover have "card ({..<n} - {j}) = n - 1" using j by simp
  ultimately have Nlt: "N < n" using j by linarith
  have tk: "take (N + 1) order' = take N order @ [j]"
    using Nlt lo by (simp add: res take_Suc_conv_app_nth)
  have 1: "distinct (take N' order')" using tk dist jn by (simp add: res(3))
  have 2: "set (take N' order') = {v. v < n \<and> level' ! v \<noteq> -1}"
    using tk vis j c ll by (auto simp: res(2,3) nth_list_update)
  have 3: "\<forall>v < n. level' ! v = (if v = j \<and> level ! v = -1 then c else level ! v)"
    using True ll by (auto simp: res(2) nth_list_update)
  have "bfs_basic n (order', level', N')"
    using 1 2 lo ll Nlt by (simp add: bfs_basic_def res)
  then show ?thesis using 3 by (simp add: res)
qed

lemma bfs_visits_basic:
  assumes c: "c \<noteq> -1"
  shows "\<forall>j \<in> set js. j < n \<Longrightarrow> bfs_basic n (order, level, N) \<Longrightarrow>
         fold (bfs_visit c) js (order, level, N) = (order', level', N') \<Longrightarrow>
         bfs_basic n (order', level', N') \<and> N \<le> N' \<and>
         (\<forall>p < N. order' ! p = order ! p) \<and> (\<forall>p \<ge> N'. order' ! p = order ! p) \<and>
         (\<forall>v < n. level' ! v = (if v \<in> set js \<and> level ! v = -1 then c else level ! v))"
proof (induction js arbitrary: order level N)
  case Nil
  then show ?case by simp
next
  case (Cons j js)
  obtain o1 l1 N1 where s: "bfs_visit c j (order, level, N) = (o1, l1, N1)"
    by (cases "bfs_visit c j (order, level, N)")
  have j: "j < n" using Cons.prems(1) by simp
  from bfs_visit_basic [OF Cons.prems(2) j c s]
  have a: "bfs_basic n (o1, l1, N1)" "N \<le> N1" "\<forall>p < N. o1 ! p = order ! p" "\<forall>p \<ge> N1. o1 ! p = order ! p"
    "\<forall>v < n. l1 ! v = (if v = j \<and> level ! v = -1 then c else level ! v)" by simp_all
  have rest: "fold (bfs_visit c) js (o1, l1, N1) = (order', level', N')"
    using Cons.prems(3) s by simp
  have "bfs_basic n (order', level', N') \<and> N1 \<le> N' \<and>
         (\<forall>p < N1. order' ! p = o1 ! p) \<and> (\<forall>p \<ge> N'. order' ! p = o1 ! p) \<and>
         (\<forall>v < n. level' ! v = (if v \<in> set js \<and> l1 ! v = -1 then c else l1 ! v))"
    using Cons.prems(1) by (intro Cons.IH [OF _ a(1) rest]) simp
  then have b: "bfs_basic n (order', level', N')" "N1 \<le> N'" "\<forall>p < N1. order' ! p = o1 ! p"
    "\<forall>p \<ge> N'. order' ! p = o1 ! p"
    "\<forall>v < n. level' ! v = (if v \<in> set js \<and> l1 ! v = -1 then c else l1 ! v)" by simp_all
  have 1: "\<forall>p < N. order' ! p = order ! p" using a(2,3) b(3) by auto
  have 2: "\<forall>p \<ge> N'. order' ! p = order ! p" using a(4) b(2,4) by auto
  have 3: "\<forall>v < n. level' ! v = (if v \<in> set (j # js) \<and> level ! v = -1 then c else level ! v)"
    using a(5) b(5) c by auto
  show ?case using b(1) a(2) b(2) 1 2 3 by simp
qed

lemma bfs_basic_order_range:
  assumes "bfs_basic n (order, level, N)" "p < N"
  shows "order ! p < n \<and> level ! (order ! p) \<noteq> -1"
proof -
  have "length order = n" "N \<le> n" "set (take N order) = {v. v < n \<and> level ! v \<noteq> -1}"
    using assms(1) by (simp_all add: bfs_basic_def)
  moreover have "order ! p \<in> set (take N order)"
    using assms(2) calculation(1,2) by (auto simp: in_set_conv_nth intro!: exI [of _ p])
  ultimately show ?thesis by simp
qed

lemma bfs_sweep_basic:
  assumes wf: "csr_wf n Ap Aj" and c: "c \<noteq> -1"
  shows "\<forall>ii \<in> set iis. ii < N \<Longrightarrow> bfs_basic n (order, level, N) \<Longrightarrow>
         fold (bfs_node Ap Aj c) iis (order, level, N) = (order', level', N') \<Longrightarrow>
         bfs_basic n (order', level', N') \<and> N \<le> N' \<and>
         (\<forall>p < N. order' ! p = order ! p) \<and> (\<forall>p \<ge> N'. order' ! p = order ! p) \<and>
         (\<forall>v < n. level' ! v =
            (if (\<exists>ii \<in> set iis. v \<in> set (nbrs Ap Aj (order ! ii))) \<and> level ! v = -1 then c else level ! v))"
proof (induction iis arbitrary: order level N)
  case Nil
  then show ?case by simp
next
  case (Cons ii iis)
  obtain o1 l1 N1 where s: "bfs_node Ap Aj c ii (order, level, N) = (o1, l1, N1)"
    by (cases "bfs_node Ap Aj c ii (order, level, N)")
  then have f: "fold (bfs_visit c) (nbrs Ap Aj (order ! ii)) (order, level, N) = (o1, l1, N1)"
    by (simp add: bfs_node_def)
  have ii: "ii < N" using Cons.prems(1) by simp
  have "order ! ii < n" using bfs_basic_order_range [OF Cons.prems(2) ii] by simp
  then have rng: "\<forall>j \<in> set (nbrs Ap Aj (order ! ii)). j < n"
    using nbrs_in_range [OF wf] by blast
  from bfs_visits_basic [OF c rng Cons.prems(2) f]
  have a: "bfs_basic n (o1, l1, N1)" "N \<le> N1" "\<forall>p < N. o1 ! p = order ! p" "\<forall>p \<ge> N1. o1 ! p = order ! p"
    "\<forall>v < n. l1 ! v = (if v \<in> set (nbrs Ap Aj (order ! ii)) \<and> level ! v = -1 then c else level ! v)"
    by simp_all
  have rest: "fold (bfs_node Ap Aj c) iis (o1, l1, N1) = (order', level', N')"
    using Cons.prems(3) s by simp
  have "bfs_basic n (order', level', N') \<and> N1 \<le> N' \<and>
         (\<forall>p < N1. order' ! p = o1 ! p) \<and> (\<forall>p \<ge> N'. order' ! p = o1 ! p) \<and>
         (\<forall>v < n. level' ! v =
            (if (\<exists>ii \<in> set iis. v \<in> set (nbrs Ap Aj (o1 ! ii))) \<and> l1 ! v = -1 then c else l1 ! v))"
    using Cons.prems(1) a(2) by (intro Cons.IH [OF _ a(1) rest]) auto
  then have b: "bfs_basic n (order', level', N')" "N1 \<le> N'" "\<forall>p < N1. order' ! p = o1 ! p"
    "\<forall>p \<ge> N'. order' ! p = o1 ! p"
    "\<forall>v < n. level' ! v =
            (if (\<exists>ii \<in> set iis. v \<in> set (nbrs Ap Aj (o1 ! ii))) \<and> l1 ! v = -1 then c else l1 ! v)"
    by simp_all
  have same: "\<forall>q \<in> set iis. o1 ! q = order ! q" using Cons.prems(1) a(3) by simp
  have 1: "\<forall>p < N. order' ! p = order ! p" using a(2,3) b(3) by auto
  have 2: "\<forall>p \<ge> N'. order' ! p = order ! p" using a(4) b(2,4) by auto
  have 3: "level' ! v =
            (if (\<exists>q \<in> set (ii # iis). v \<in> set (nbrs Ap Aj (order ! q))) \<and> level ! v = -1 then c else level ! v)"
    if v: "v < n" for v
  proof -
    have e1: "level' ! v = (if (\<exists>q \<in> set iis. v \<in> set (nbrs Ap Aj (order ! q))) \<and> l1 ! v = -1 then c else l1 ! v)"
      using b(5) v same by simp
    have e2: "l1 ! v = (if v \<in> set (nbrs Ap Aj (order ! ii)) \<and> level ! v = -1 then c else level ! v)"
      using a(5) v by simp
    show ?thesis unfolding e1 e2 using c by auto
  qed
  show ?case using b(1) a(2) b(2) 1 2 3 by simp
qed

section \<open>One level of the search\<close>


lemma within_stepsI: "m \<le> k \<Longrightarrow> walk Ap Aj m u v \<Longrightarrow> within_steps Ap Aj k u v"
  by (auto simp: within_steps_iff)

lemma bfs_step:
  assumes wf: "csr_wf n Ap Aj" and seed: "seed < n"
    and inv: "bfs_inv n Ap Aj seed k b e (order, level, N)"
    and r: "fold (bfs_node Ap Aj (int k)) [b..<e] (order, level, N) = (order', level', N')"
  shows "bfs_inv n Ap Aj seed (k + 1) e N' (order', level', N') \<and>
         (\<forall>p \<ge> N'. order' ! p = order ! p)"
proof -
  have J: "bfs_basic n (order, level, N)" and k: "1 \<le> k" and be: "b \<le> e" and eN: "e = N"
    and lev: "\<And>v. v < n \<Longrightarrow> level ! v \<noteq> -1 \<Longrightarrow> distance_is Ap Aj seed v (level ! v) \<and> level ! v < int k"
    and comp: "\<And>v. v < n \<Longrightarrow> within_steps Ap Aj (k - 1) seed v \<Longrightarrow> level ! v \<noteq> -1"
    and win: "\<And>v. v < n \<Longrightarrow> level ! v = int k - 1 \<longleftrightarrow> (\<exists>p. b \<le> p \<and> p < e \<and> order ! p = v)"
    and clo: "\<And>w v. w < n \<Longrightarrow> level ! w \<noteq> -1 \<Longrightarrow> level ! w < int k - 1 \<Longrightarrow> v \<in> set (nbrs Ap Aj w) \<Longrightarrow> level ! v \<noteq> -1"
    using inv by (auto simp: bfs_inv_def)
  have c: "int k \<noteq> -1" by simp
  have iis: "\<forall>ii \<in> set [b..<e]. ii < N" using eN by simp
  from bfs_sweep_basic [OF wf c iis J r]
  have J': "bfs_basic n (order', level', N')" and NN: "N \<le> N'"
    and pre: "\<And>p. p < N \<Longrightarrow> order' ! p = order ! p"
    and tail: "\<forall>p \<ge> N'. order' ! p = order ! p"
    and lv: "\<And>v. v < n \<Longrightarrow> level' ! v =
            (if (\<exists>ii \<in> set [b..<e]. v \<in> set (nbrs Ap Aj (order ! ii))) \<and> level ! v = -1 then int k else level ! v)"
    by simp_all
  have lo: "length order = n" and vis: "set (take N order) = {v. v < n \<and> level ! v \<noteq> -1}"
    using J by (simp_all add: bfs_basic_def)
  have lo': "length order' = n" and N'n: "N' \<le> n" and dist': "distinct (take N' order')"
    and vis': "set (take N' order') = {v. v < n \<and> level' ! v \<noteq> -1}"
    using J' by (simp_all add: bfs_basic_def)
  \<comment> \<open>the neighbours of the window\<close>
  have W: "(\<exists>ii \<in> set [b..<e]. v \<in> set (nbrs Ap Aj (order ! ii))) \<longleftrightarrow>
           (\<exists>w < n. level ! w = int k - 1 \<and> v \<in> set (nbrs Ap Aj w))" for v
  proof
    assume "\<exists>ii \<in> set [b..<e]. v \<in> set (nbrs Ap Aj (order ! ii))"
    then obtain ii where ii: "b \<le> ii" "ii < e" "v \<in> set (nbrs Ap Aj (order ! ii))" by auto
    have "order ! ii < n" using bfs_basic_order_range [OF J] ii(2) eN by simp
    moreover from this have "level ! (order ! ii) = int k - 1" using win ii(1,2) by blast
    ultimately show "\<exists>w < n. level ! w = int k - 1 \<and> v \<in> set (nbrs Ap Aj w)" using ii(3) by blast
  next
    assume "\<exists>w < n. level ! w = int k - 1 \<and> v \<in> set (nbrs Ap Aj w)"
    then obtain w where w: "w < n" "level ! w = int k - 1" "v \<in> set (nbrs Ap Aj w)" by blast
    then obtain p where "b \<le> p" "p < e" "order ! p = w" using win by blast
    then show "\<exists>ii \<in> set [b..<e]. v \<in> set (nbrs Ap Aj (order ! ii))" using w(3) by auto
  qed
  have old: "level' ! v = level ! v" if "v < n" "level ! v \<noteq> -1" for v
    using lv [OF that(1)] that(2) by simp
  have new: "level' ! v = int k \<and> (\<exists>w < n. level ! w = int k - 1 \<and> v \<in> set (nbrs Ap Aj w))"
    if "v < n" "level ! v = -1" "level' ! v \<noteq> -1" for v
    using lv [OF that(1)] that(2,3) W [of v] by (auto split: if_splits)
  have reach: "level' ! v \<noteq> -1" if "v < n" "w < n" "level ! w = int k - 1" "v \<in> set (nbrs Ap Aj w)" for v w
    using lv [OF that(1)] W [of v] that by auto
  \<comment> \<open>levels are distances\<close>
  have lev': "distance_is Ap Aj seed v (level' ! v) \<and> level' ! v < int (k + 1)"
    if v: "v < n" and nz: "level' ! v \<noteq> -1" for v
  proof (cases "level ! v = -1")
    case False
    then show ?thesis using lev [OF v False] old [OF v False] by simp
  next
    case True
    from new [OF v True nz] obtain w where lk: "level' ! v = int k"
      and w: "w < n" "level ! w = int k - 1" "v \<in> set (nbrs Ap Aj w)" by blast
    have "distance_is Ap Aj seed w (int k - 1)" using lev [OF w(1)] w(2) k by simp
    then have "walk Ap Aj (k - 1) seed w" using k by (simp add: distance_is_def nat_diff_distrib')
    then have "walk Ap Aj (Suc (k - 1)) seed v" using w(3) walk_snoc by blast
    then have wk: "walk Ap Aj k seed v" using k by simp
    have "\<not> walk Ap Aj m seed v" if "m < k" for m
    proof
      assume "walk Ap Aj m seed v"
      then have "within_steps Ap Aj (k - 1) seed v" using that by (intro within_stepsI [of m]) simp_all
      then show False using comp [OF v] True by simp
    qed
    then show ?thesis using wk lk by (simp add: distance_is_def)
  qed
  \<comment> \<open>every vertex within k steps is reached\<close>
  have comp': "level' ! v \<noteq> -1" if v: "v < n" and wi: "within_steps Ap Aj (k + 1 - 1) seed v" for v
  proof -
    from wi obtain m where m: "m \<le> k" "walk Ap Aj m seed v" by (auto simp: within_steps_iff)
    show ?thesis
    proof (cases "m \<le> k - 1")
      case True
      then have "within_steps Ap Aj (k - 1) seed v" using m(2) by (intro within_stepsI [of m]) simp_all
      then have "level ! v \<noteq> -1" using comp [OF v] by simp
      then show ?thesis using old [OF v] by simp
    next
      case False
      then have "m = Suc (k - 1)" using m(1) k by simp
      then obtain w where w: "walk Ap Aj (k - 1) seed w" "v \<in> set (nbrs Ap Aj w)"
        using m(2) walk_snoc by metis
      have wn: "w < n" by (rule walk_in_range [OF wf seed w(1)])
      have "within_steps Ap Aj (k - 1) seed w" using w(1) by (intro within_stepsI [of "k - 1"]) simp_all
      then have lw: "level ! w \<noteq> -1" using comp [OF wn] by simp
      then have "level ! w < int k" using lev [OF wn] by simp
      then consider "level ! w = int k - 1" | "level ! w < int k - 1" by linarith
      then show ?thesis
      proof cases
        case 1
        then show ?thesis using reach [OF v wn _ w(2)] by simp
      next
        case 2
        then have "level ! v \<noteq> -1" using clo [OF wn lw _ w(2)] by simp
        then show ?thesis using old [OF v] by simp
      qed
    qed
  qed
  \<comment> \<open>the new window holds the vertices of level k\<close>
  have win': "level' ! v = int (k + 1) - 1 \<longleftrightarrow> (\<exists>p. e \<le> p \<and> p < N' \<and> order' ! p = v)" if v: "v < n" for v
  proof
    assume lk: "level' ! v = int (k + 1) - 1"
    have un: "level ! v = -1"
    proof (rule ccontr)
      assume a: "level ! v \<noteq> -1"
      then have "level ! v < int k" using lev [OF v] by simp
      then show False using old [OF v a] lk by simp
    qed
    have "v \<in> set (take N' order')" using vis' v lk by simp
    then obtain p where p: "p < N'" "order' ! p = v" using lo' N'n by (auto simp: in_set_conv_nth)
    have "\<not> p < N"
    proof
      assume pN: "p < N"
      then have "order ! p = v" using pre p(2) by simp
      then show False using bfs_basic_order_range [OF J pN] un by simp
    qed
    then have "e \<le> p \<and> p < N' \<and> order' ! p = v" using p eN by simp
    then show "\<exists>p. e \<le> p \<and> p < N' \<and> order' ! p = v" by blast
  next
    assume "\<exists>p. e \<le> p \<and> p < N' \<and> order' ! p = v"
    then obtain p where p: "N \<le> p" "p < N'" "order' ! p = v" using eN by auto
    have nz: "level' ! v \<noteq> -1" using bfs_basic_order_range [OF J' p(2)] p(3) by simp
    have un: "level ! v = -1"
    proof (rule ccontr)
      assume "level ! v \<noteq> -1"
      then have "v \<in> set (take N order)" using vis v by simp
      then obtain q where q: "q < N" "order ! q = v"
        using lo J by (auto simp: in_set_conv_nth bfs_basic_def)
      then have "order' ! q = order' ! p" using pre p(3) by simp
      moreover have "q < length (take N' order')" "p < length (take N' order')" "q \<noteq> p"
        using q(1) p(1,2) lo' N'n by simp_all
      ultimately show False using dist' p(2) q(1) NN
        by (metis distinct_conv_nth nth_take order_less_le_trans)
    qed
    show "level' ! v = int (k + 1) - 1" using new [OF v un nz] by simp
  qed
  \<comment> \<open>the neighbours of every vertex below level k are reached\<close>
  have clo': "level' ! v \<noteq> -1"
    if w: "w < n" and lw: "level' ! w \<noteq> -1" "level' ! w < int (k + 1) - 1" and v: "v \<in> set (nbrs Ap Aj w)" for w v
  proof -
    have vn: "v < n" by (rule nbrs_in_range [OF wf w v])
    have lw0: "level ! w \<noteq> -1"
    proof
      assume "level ! w = -1"
      from new [OF w this lw(1)] lw(2) show False by simp
    qed
    have same: "level' ! w = level ! w" by (rule old [OF w lw0])
    have "level ! w < int k" using lev [OF w lw0] by simp
    then consider "level ! w = int k - 1" | "level ! w < int k - 1" by linarith
    then show ?thesis
    proof cases
      case 1
      then show ?thesis using reach [OF vn w _ v] by simp
    next
      case 2
      then have "level ! v \<noteq> -1" using clo [OF w lw0 _ v] by simp
      then show ?thesis using old [OF vn] by simp
    qed
  qed
  have "bfs_inv n Ap Aj seed (k + 1) e N' (order', level', N')"
    unfolding bfs_inv_def using J' NN eN lev' comp' win' clo' by auto
  then show ?thesis using tail by simp
qed

section \<open>Breadth-first search computes distances\<close>


lemma bfs_loop_total:
  assumes wf: "csr_wf n Ap Aj" and seed: "seed < n"
  shows "bfs_inv n Ap Aj seed k b e (order, level, N) \<Longrightarrow>
         \<exists>order' level' N'. bfs_loop Ap Aj b e (int k) (order, level, N) = Some (order', level') \<and>
            bfs_final n Ap Aj seed order N (order', level', N')"
proof (induction "n - e" arbitrary: k b e order level N rule: less_induct)
  case less
  have J: "bfs_basic n (order, level, N)" and k: "1 \<le> k" and be: "b \<le> e" and eN: "e = N"
    and lev: "\<And>v. v < n \<Longrightarrow> level ! v \<noteq> -1 \<Longrightarrow> distance_is Ap Aj seed v (level ! v) \<and> level ! v < int k"
    and comp: "\<And>v. v < n \<Longrightarrow> within_steps Ap Aj (k - 1) seed v \<Longrightarrow> level ! v \<noteq> -1"
    and win: "\<And>v. v < n \<Longrightarrow> level ! v = int k - 1 \<longleftrightarrow> (\<exists>p. b \<le> p \<and> p < e \<and> order ! p = v)"
    and clo: "\<And>w v. w < n \<Longrightarrow> level ! w \<noteq> -1 \<Longrightarrow> level ! w < int k - 1 \<Longrightarrow> v \<in> set (nbrs Ap Aj w) \<Longrightarrow> level ! v \<noteq> -1"
    using less.prems by (auto simp: bfs_inv_def)
  have sd: "level ! seed \<noteq> -1"
    by (rule comp [OF seed]) (simp add: within_steps_iff exI [of _ 0])
  show ?case
  proof (cases "b < e")
    case False
    have ret: "bfs_loop Ap Aj b e (int k) (order, level, N) = Some (order, level)"
      using False by (subst bfs_loop.simps) simp
    have clo_all: "level ! v \<noteq> -1" if w: "w < n" "level ! w \<noteq> -1" and v: "v \<in> set (nbrs Ap Aj w)" for w v
    proof -
      have "level ! w \<noteq> int k - 1" using win [OF w(1)] False by auto
      moreover have "level ! w < int k" using lev [OF w] by simp
      ultimately have "level ! w < int k - 1" by linarith
      then show ?thesis using clo [OF w _ v] by simp
    qed
    have "bfs_final n Ap Aj seed order N (order, level, N)"
      unfolding bfs_final_def using J sd lev clo_all by auto
    then show ?thesis using ret by blast
  next
    case True
    obtain o1 l1 N1 where s: "fold (bfs_node Ap Aj (int k)) [b..<e] (order, level, N) = (o1, l1, N1)"
      by (cases "fold (bfs_node Ap Aj (int k)) [b..<e] (order, level, N)")
    from bfs_step [OF wf seed less.prems s]
    have inv1: "bfs_inv n Ap Aj seed (k + 1) e N1 (o1, l1, N1)" and tail: "\<forall>p \<ge> N1. o1 ! p = order ! p"
      by simp_all
    have unf: "bfs_loop Ap Aj b e (int k) (order, level, N) = bfs_loop Ap Aj e N1 (int (k + 1)) (o1, l1, N1)"
      using True s by (subst bfs_loop.simps) (simp add: add.commute)
    have eN1: "e \<le> N1" and N1n: "N1 \<le> n" using inv1 by (simp_all add: bfs_inv_def bfs_basic_def)
    show ?thesis
    proof (cases "e < N1")
      case True
      then have "n - N1 < n - e" using N1n by simp
      from less.hyps [OF this inv1] obtain order' level' N' where
        *: "bfs_loop Ap Aj e N1 (int (k + 1)) (o1, l1, N1) = Some (order', level')"
           "bfs_final n Ap Aj seed o1 N1 (order', level', N')" by blast
      have "bfs_final n Ap Aj seed order N (order', level', N')"
        using *(2) tail eN1 eN unfolding bfs_final_def by auto
      then show ?thesis using *(1) unf by auto
    next
      case False
      have J1: "bfs_basic n (o1, l1, N1)" and k1: "1 \<le> k + 1"
        and lev1: "\<And>v. v < n \<Longrightarrow> l1 ! v \<noteq> -1 \<Longrightarrow> distance_is Ap Aj seed v (l1 ! v) \<and> l1 ! v < int (k + 1)"
        and comp1: "\<And>v. v < n \<Longrightarrow> within_steps Ap Aj (k + 1 - 1) seed v \<Longrightarrow> l1 ! v \<noteq> -1"
        and win1: "\<And>v. v < n \<Longrightarrow> l1 ! v = int (k + 1) - 1 \<longleftrightarrow> (\<exists>p. e \<le> p \<and> p < N1 \<and> o1 ! p = v)"
        and clo1: "\<And>w v. w < n \<Longrightarrow> l1 ! w \<noteq> -1 \<Longrightarrow> l1 ! w < int (k + 1) - 1 \<Longrightarrow> v \<in> set (nbrs Ap Aj w) \<Longrightarrow> l1 ! v \<noteq> -1"
        using inv1 by (auto simp: bfs_inv_def)
      have ret: "bfs_loop Ap Aj e N1 (int (k + 1)) (o1, l1, N1) = Some (o1, l1)"
        using False by (subst bfs_loop.simps) simp
      have sd1: "l1 ! seed \<noteq> -1"
        by (rule comp1 [OF seed]) (simp add: within_steps_iff exI [of _ 0])
      have clo_all: "l1 ! v \<noteq> -1" if w: "w < n" "l1 ! w \<noteq> -1" and v: "v \<in> set (nbrs Ap Aj w)" for w v
      proof -
        have "l1 ! w \<noteq> int (k + 1) - 1" using win1 [OF w(1)] False by auto
        moreover have "l1 ! w < int (k + 1)" using lev1 [OF w] by simp
        ultimately have "l1 ! w < int (k + 1) - 1" by linarith
        then show ?thesis using clo1 [OF w _ v] by simp
      qed
      have "bfs_final n Ap Aj seed order N (o1, l1, N1)"
        unfolding bfs_final_def using J1 sd1 lev1 clo_all tail eN1 eN by auto
      then show ?thesis using ret unf by auto
    qed
  qed
qed

lemma bfs_inv_init:
  assumes seed: "seed < n" and lo: "length order = n"
  shows "bfs_inv n Ap Aj seed 1 0 1 (order[0 := seed], (replicate n (-1))[seed := 0], 1)"
proof -
  let ?l = "(replicate n (-1))[seed := 0 :: int]"
  have lv: "?l ! v = (if v = seed then 0 else -1)" if "v < n" for v
    using that seed by (simp add: nth_list_update)
  have tk: "take 1 (order[0 := seed]) = [seed]"
    using seed lo by (cases order) simp_all
  have vis0: "{v. v < n \<and> ?l ! v \<noteq> -1} = {seed}"
    using lv seed by (auto split: if_splits)
  have basic: "bfs_basic n (order[0 := seed], ?l, 1)"
    unfolding bfs_basic_def using seed lo tk vis0 by simp
  have d0: "distance_is Ap Aj seed seed 0" by (simp add: distance_is_def)
  have w0: "v = seed" if "within_steps Ap Aj 0 seed v" for v
    using that by (simp add: within_steps_iff)
  have o0: "order[0 := seed] ! 0 = seed" using seed lo by simp
  show ?thesis
    unfolding bfs_inv_def using basic lv d0 w0 o0 by (auto split: if_splits)
qed

lemma reachable_reached:
  assumes wf: "csr_wf n Ap Aj" and seed: "seed < n"
    and sd: "level ! seed \<noteq> -1"
    and clo: "\<And>w v. w < n \<Longrightarrow> level ! w \<noteq> -1 \<Longrightarrow> v \<in> set (nbrs Ap Aj w) \<Longrightarrow> level ! v \<noteq> -1"
  shows "walk Ap Aj m seed v \<Longrightarrow> level ! v \<noteq> (-1 :: int)"
proof (induction m arbitrary: v)
  case 0
  then show ?case using sd by simp
next
  case (Suc m)
  then obtain w where w: "walk Ap Aj m seed w" "v \<in> set (nbrs Ap Aj w)" using walk_snoc by metis
  have "w < n" by (rule walk_in_range [OF wf seed w(1)])
  then show ?case using clo Suc.IH [OF w(1)] w(2) by blast
qed

text \<open>
  Claim C5, amended. For a well-formed graph, a seed in range and \<open>level\<close> filled with
  \<open>-1\<close>, the search returns; \<open>level[j]\<close> is the shortest-path distance from the seed for
  every reachable \<open>j\<close> (so 0 for the seed) and still \<open>-1\<close> for every other vertex; the
  first \<open>R\<close> entries of \<open>order\<close>, \<open>R\<close> the number of reachable vertices, list exactly
  the reachable vertices, each once, and the entries from \<open>R\<close> on are those the array
  held before the call.
\<close>

theorem bfs_levels_and_order:
  assumes "csr_wf n Ap Aj" and "seed < n" and "level = replicate n (-1)" and "length order = n"
  shows "\<exists>order' level'. breadth_first_search Ap Aj seed order level = Some (order', level') \<and>
           length order' = n \<and> length level' = n \<and>
           bfs_levels n Ap Aj seed level' \<and> bfs_order n Ap Aj seed order order' level'"
proof -
  have init: "bfs_inv n Ap Aj seed 1 0 1 (order[0 := seed], level[seed := 0], 1)"
    unfolding assms(3) by (rule bfs_inv_init [OF assms(2,4)])
  from bfs_loop_total [OF assms(1,2) init] obtain order' level' N' where
    ret: "bfs_loop Ap Aj 0 1 (int 1) (order[0 := seed], level[seed := 0], 1) = Some (order', level')"
    and fin: "bfs_final n Ap Aj seed (order[0 := seed]) 1 (order', level', N')" by blast
  have J: "bfs_basic n (order', level', N')" and N1: "1 \<le> N'"
    and tail: "\<And>p. N' \<le> p \<Longrightarrow> order' ! p = order[0 := seed] ! p"
    and sd: "level' ! seed \<noteq> -1"
    and lev: "\<And>v. v < n \<Longrightarrow> level' ! v \<noteq> -1 \<Longrightarrow> distance_is Ap Aj seed v (level' ! v)"
    and clo: "\<And>w v. w < n \<Longrightarrow> level' ! w \<noteq> -1 \<Longrightarrow> v \<in> set (nbrs Ap Aj w) \<Longrightarrow> level' ! v \<noteq> -1"
    using fin by (auto simp: bfs_final_def)
  have lo': "length order' = n" and ll': "length level' = n" and N'n: "N' \<le> n"
    and dist: "distinct (take N' order')"
    and vis: "set (take N' order') = {v. v < n \<and> level' ! v \<noteq> -1}"
    using J by (simp_all add: bfs_basic_def)
  have r1: "level' ! v \<noteq> -1" if "reachable Ap Aj seed v" for v
    using that reachable_reached [OF assms(1,2) sd clo] by (auto simp: reachable_def)
  have r2: "reachable Ap Aj seed v" if "v < n" "level' ! v \<noteq> -1" for v
    using lev [OF that] by (auto simp: distance_is_def reachable_def)
  have levels: "bfs_levels n Ap Aj seed level'"
    unfolding bfs_levels_def
  proof (intro ballI)
    fix j assume "j \<in> set [0..<n]"
    then have jn: "j < n" by simp
    show "if reachable Ap Aj seed j then distance_is Ap Aj seed j (level' ! j) else level' ! j = -1"
    proof (cases "reachable Ap Aj seed j")
      case True
      then show ?thesis using lev [OF jn r1 [OF True]] by simp
    next
      case False
      then have "level' ! j = -1" using r2 [OF jn] by blast
      then show ?thesis using False by simp
    qed
  qed
  have "card (set (take N' order')) = N'" using dist lo' N'n by (simp add: distinct_card)
  then have "card {v. v < n \<and> level' ! v \<noteq> -1} = N'" using vis by simp
  moreover have "{i. i < n \<and> level' ! ([0..<n] ! i) \<noteq> -1} = {v. v < n \<and> level' ! v \<noteq> -1}"
    by auto
  then have "reached_count n level' = card {v. v < n \<and> level' ! v \<noteq> -1}"
    unfolding reached_count_def by (subst length_filter_conv_card) simp
  ultimately have R: "reached_count n level' = N'" by simp
  have set_eq: "set (take N' order') = {j. j < n \<and> reachable Ap Aj seed j}"
    using vis r1 r2 by auto
  have "drop N' order' = drop N' order"
  proof (rule nth_equalityI)
    show "length (drop N' order') = length (drop N' order)" using lo' assms(4) by simp
  next
    fix i assume "i < length (drop N' order')"
    then have "N' + i < n" using lo' by simp
    then show "drop N' order' ! i = drop N' order ! i"
      using tail [of "N' + i"] N1 lo' assms(4) by simp
  qed
  then have ord: "bfs_order n Ap Aj seed order order' level'"
    unfolding bfs_order_def Let_def R using dist set_eq by simp
  have "breadth_first_search Ap Aj seed order level = Some (order', level')"
    using ret by (simp add: breadth_first_search_def)
  then show ?thesis using lo' ll' levels ord by blast
qed

lemma tree4_wf: "csr_wf 4 tree4_Ap tree4_Aj"
  by code_simp

theorem bfs_levels_and_order_witness:
  "csr_wf 4 tree4_Ap tree4_Aj \<and> (0::nat) < 4 \<and> [-1, -1, -1, -1 :: int] = replicate 4 (-1) \<and>
   length [9, 9, 9, 9 :: nat] = 4 \<and>
   breadth_first_search tree4_Ap tree4_Aj 0 [9, 9, 9, 9] [-1, -1, -1, -1] = Some ([0, 1, 2, 3], [0, 1, 1, 2]) \<and>
   bfs_levels 4 tree4_Ap tree4_Aj 0 [0, 1, 1, 2] \<and>
   bfs_order 4 tree4_Ap tree4_Aj 0 [9, 9, 9, 9] [0, 1, 2, 3] [0, 1, 1, 2]"
proof -
  have h2: "(0::nat) < 4" by simp
  have h3: "[-1, -1, -1, -1 :: int] = replicate 4 (-1)" by (simp add: numeral_eq_Suc)
  have h4: "length [9, 9, 9, 9 :: nat] = 4" by simp
  have e: "breadth_first_search tree4_Ap tree4_Aj 0 [9, 9, 9, 9] [-1, -1, -1, -1] = Some ([0, 1, 2, 3], [0, 1, 1, 2])"
    by code_simp
  from bfs_levels_and_order [OF tree4_wf h2 h3 h4] e
  have "bfs_levels 4 tree4_Ap tree4_Aj 0 [0, 1, 1, 2] \<and>
        bfs_order 4 tree4_Ap tree4_Aj 0 [9, 9, 9, 9] [0, 1, 2, 3] [0, 1, 1, 2]" by auto
  then show ?thesis using tree4_wf h2 h3 h4 e by blast
qed

lemma isolated2_unreachable: "\<not> reachable isolated2_Ap isolated2_Aj 0 1"
proof -
  have "\<not> walk isolated2_Ap isolated2_Aj m 0 1" for m
    by (cases m) (simp_all add: nbrs_def csr_row_def isolated2_Ap_def)
  then show ?thesis by (simp add: reachable_def)
qed

text \<open>
  Claim C5 as stated fails where it says that an unreachable vertex does not appear in
  \<open>order\<close>: the search writes only the first \<open>R\<close> entries and returns no count. On two
  isolated vertices, with \<open>order = [1, 1]\<close> before the call, vertex 1 is unreachable
  from the seed 0 and yet \<open>order = [0, 1]\<close> after it.
\<close>

theorem bfs_order_keeps_unreached_entries:
  "breadth_first_search isolated2_Ap isolated2_Aj 0 [1, 1] [-1, -1] = Some ([0, 1], [0, -1]) \<and>
   \<not> reachable isolated2_Ap isolated2_Aj 0 1 \<and>
   (1::nat) \<in> set [0, 1]"
proof -
  have "breadth_first_search isolated2_Ap isolated2_Aj 0 [1, 1] [-1, -1] = Some ([0, 1], [0, -1])"
    by code_simp
  then show ?thesis using isolated2_unreachable by simp
qed

section \<open>Propagation of the maximum\<close>


lemma better_refl: "better base a a"
  by (simp add: better_def)

lemma better_trans: "better base a b \<Longrightarrow> better base b c \<Longrightarrow> better base a c"
  by (auto simp: better_def)

lemma better_antisym: "better base a b \<Longrightarrow> better base b a \<Longrightarrow> a = b"
  by (auto simp: better_def)

lemma propagate_edge_step:
  assumes vm: "v_max = base k_max" and vj: "i_vals ! j = base (i_keys ! j)"
    and r: "propagate_edge i_keys i_vals j (k_max, v_max) = (k', v')"
  shows "v' = base k' \<and> (k' = k_max \<or> k' = i_keys ! j) \<and> better base k' k_max \<and> better base k' (i_keys ! j)"
proof -
  let ?kj = "i_keys ! j" and ?vj = "i_vals ! j"
  consider (same) "?kj = k_max"
    | (less) "?kj \<noteq> k_max" "?vj < v_max"
    | (take) "?kj \<noteq> k_max" "\<not> ?vj < v_max" "?vj > v_max \<or> ?kj > k_max"
    | (keep) "?kj \<noteq> k_max" "\<not> ?vj < v_max" "\<not> (?vj > v_max \<or> ?kj > k_max)"
    by blast
  then show ?thesis
  proof cases
    case same
    then have "k' = k_max" "v' = v_max" using r by (simp_all add: propagate_edge_def)
    then show ?thesis using vm same by (simp add: better_def)
  next
    case less
    then have "k' = k_max" "v' = v_max" using r by (simp_all add: propagate_edge_def)
    then show ?thesis using vm vj less by (simp add: better_def)
  next
    case take
    then have "k' = ?kj" "v' = ?vj" using r by (simp_all add: propagate_edge_def)
    then show ?thesis using vm vj take by (auto simp: better_def)
  next
    case keep
    then have "k' = k_max" "v' = v_max" using r by (simp_all add: propagate_edge_def)
    then show ?thesis using vm vj keep by (auto simp: better_def)
  qed
qed

lemma propagate_edges:
  "v_max = base k_max \<Longrightarrow> \<forall>j \<in> set js. i_vals ! j = base (i_keys ! j) \<Longrightarrow>
   fold (propagate_edge i_keys i_vals) js (k_max, v_max) = (k', v') \<Longrightarrow>
   v' = base k' \<and> (k' = k_max \<or> (\<exists>j \<in> set js. k' = i_keys ! j)) \<and> better base k' k_max \<and>
   (\<forall>j \<in> set js. better base k' (i_keys ! j))"
proof (induction js arbitrary: k_max v_max)
  case Nil
  then show ?case by (auto simp: better_refl)
next
  case (Cons j js)
  obtain k1 v1 where s: "propagate_edge i_keys i_vals j (k_max, v_max) = (k1, v1)"
    by (cases "propagate_edge i_keys i_vals j (k_max, v_max)")
  have cj: "i_vals ! j = base (i_keys ! j)" using Cons.prems(2) by simp
  from propagate_edge_step [OF Cons.prems(1) cj s]
  have a: "v1 = base k1" "k1 = k_max \<or> k1 = i_keys ! j" "better base k1 k_max" "better base k1 (i_keys ! j)"
    by simp_all
  have rest: "fold (propagate_edge i_keys i_vals) js (k1, v1) = (k', v')"
    using Cons.prems(3) s by simp
  have "v' = base k' \<and> (k' = k1 \<or> (\<exists>j \<in> set js. k' = i_keys ! j)) \<and> better base k' k1 \<and>
        (\<forall>j \<in> set js. better base k' (i_keys ! j))"
    using Cons.prems(2) by (intro Cons.IH [OF a(1) _ rest]) simp
  then have b: "v' = base k'" "k' = k1 \<or> (\<exists>j \<in> set js. k' = i_keys ! j)" "better base k' k1"
    "\<forall>j \<in> set js. better base k' (i_keys ! j)" by simp_all
  have 1: "k' = k_max \<or> (\<exists>q \<in> set (j # js). k' = i_keys ! q)" using a(2) b(2) by auto
  have 2: "better base k' k_max" using better_trans [OF b(3) a(3)] .
  have 3: "better base k' (i_keys ! j)" using better_trans [OF b(3) a(4)] .
  show ?case using b(1) 1 2 3 b(4) by simp
qed

lemma propagate_nodes:
  "fold (propagate_node Ap Aj i_keys i_vals) ns (o_keys, o_vals) = (ok, ov) \<Longrightarrow>
   length ok = length o_keys \<and> length ov = length o_vals \<and>
   (\<forall>i. i < length o_keys \<and> i < length o_vals \<longrightarrow>
      (ok ! i, ov ! i) =
        (if i \<in> set ns
         then fold (propagate_edge i_keys i_vals) (nbrs Ap Aj i) (i_keys ! i, i_vals ! i)
         else (o_keys ! i, o_vals ! i)))"
proof (induction ns arbitrary: o_keys o_vals)
  case Nil
  then show ?case by simp
next
  case (Cons a ns)
  obtain km vm where e: "fold (propagate_edge i_keys i_vals) (nbrs Ap Aj a) (i_keys ! a, i_vals ! a) = (km, vm)"
    by (cases "fold (propagate_edge i_keys i_vals) (nbrs Ap Aj a) (i_keys ! a, i_vals ! a)")
  have s: "propagate_node Ap Aj i_keys i_vals a (o_keys, o_vals) = (o_keys[a := km], o_vals[a := vm])"
    by (simp add: propagate_node_def e)
  have rest: "fold (propagate_node Ap Aj i_keys i_vals) ns (o_keys[a := km], o_vals[a := vm]) = (ok, ov)"
    using Cons.prems s by simp
  from Cons.IH [OF rest]
  have b: "length ok = length o_keys" "length ov = length o_vals"
    "\<And>i. i < length o_keys \<Longrightarrow> i < length o_vals \<Longrightarrow>
      (ok ! i, ov ! i) =
        (if i \<in> set ns
         then fold (propagate_edge i_keys i_vals) (nbrs Ap Aj i) (i_keys ! i, i_vals ! i)
         else (o_keys[a := km] ! i, o_vals[a := vm] ! i))" by simp_all
  have "(ok ! i, ov ! i) =
        (if i \<in> set (a # ns)
         then fold (propagate_edge i_keys i_vals) (nbrs Ap Aj i) (i_keys ! i, i_vals ! i)
         else (o_keys ! i, o_vals ! i))" if "i < length o_keys" "i < length o_vals" for i
    using b(3) [OF that] that e by (cases "i = a") auto
  then show ?case using b(1,2) by simp
qed

text \<open>One propagation step takes the best key of the closed neighbourhood.\<close>

lemma csr_propagate_max_best:
  assumes wf: "csr_wf n Ap Aj"
    and len: "length i_keys = n" "length i_vals = n" "length o_keys = n" "length o_vals = n"
    and cons: "\<forall>i < n. i_vals ! i = base (i_keys ! i)"
    and r: "csr_propagate_max n Ap Aj i_keys o_keys i_vals o_vals = (ok, ov)"
  shows "length ok = n \<and> length ov = n \<and>
         (\<forall>i < n. ov ! i = base (ok ! i) \<and>
            (ok ! i = i_keys ! i \<or> (\<exists>j \<in> set (nbrs Ap Aj i). ok ! i = i_keys ! j)) \<and>
            better base (ok ! i) (i_keys ! i) \<and>
            (\<forall>j \<in> set (nbrs Ap Aj i). better base (ok ! i) (i_keys ! j)))"
proof -
  have f: "fold (propagate_node Ap Aj i_keys i_vals) [0..<n] (o_keys, o_vals) = (ok, ov)"
    using r by (simp add: csr_propagate_max_def)
  from propagate_nodes [OF f]
  have l: "length ok = n" "length ov = n"
    and v: "\<And>i. i < n \<Longrightarrow> (ok ! i, ov ! i) =
        fold (propagate_edge i_keys i_vals) (nbrs Ap Aj i) (i_keys ! i, i_vals ! i)"
    using len by simp_all
  have "ov ! i = base (ok ! i) \<and>
        (ok ! i = i_keys ! i \<or> (\<exists>j \<in> set (nbrs Ap Aj i). ok ! i = i_keys ! j)) \<and>
        better base (ok ! i) (i_keys ! i) \<and>
        (\<forall>j \<in> set (nbrs Ap Aj i). better base (ok ! i) (i_keys ! j))" if i: "i < n" for i
  proof -
    have c0: "i_vals ! i = base (i_keys ! i)" using cons i by simp
    have cj: "\<forall>j \<in> set (nbrs Ap Aj i). i_vals ! j = base (i_keys ! j)"
      using cons nbrs_in_range [OF wf i] by blast
    show ?thesis by (rule propagate_edges [OF c0 cj v [OF i, symmetric]])
  qed
  then show ?thesis using l by simp
qed

section \<open>Propagation over k steps\<close>


lemma within_steps_Suc:
  "within_steps Ap Aj (Suc t) i w \<longleftrightarrow>
     within_steps Ap Aj t i w \<or> (\<exists>j \<in> set (nbrs Ap Aj i). within_steps Ap Aj t j w)"
proof
  assume "within_steps Ap Aj (Suc t) i w"
  then obtain m where m: "m \<le> Suc t" "walk Ap Aj m i w" by (auto simp: within_steps_iff)
  show "within_steps Ap Aj t i w \<or> (\<exists>j \<in> set (nbrs Ap Aj i). within_steps Ap Aj t j w)"
  proof (cases m)
    case 0
    then have "walk Ap Aj 0 i w" using m(2) by simp
    then have "within_steps Ap Aj t i w" by (intro within_stepsI [of 0]) simp_all
    then show ?thesis by simp
  next
    case (Suc m')
    then obtain j where j: "j \<in> set (nbrs Ap Aj i)" "walk Ap Aj m' j w" using m(2) by auto
    have "within_steps Ap Aj t j w" using m(1) Suc j(2) by (intro within_stepsI [of m']) simp_all
    then show ?thesis using j(1) by blast
  qed
next
  assume "within_steps Ap Aj t i w \<or> (\<exists>j \<in> set (nbrs Ap Aj i). within_steps Ap Aj t j w)"
  then show "within_steps Ap Aj (Suc t) i w"
  proof
    assume "within_steps Ap Aj t i w"
    then obtain m where "m \<le> t" "walk Ap Aj m i w" by (auto simp: within_steps_iff)
    then show ?thesis by (intro within_stepsI [of m]) simp_all
  next
    assume "\<exists>j \<in> set (nbrs Ap Aj i). within_steps Ap Aj t j w"
    then obtain j m where j: "j \<in> set (nbrs Ap Aj i)" "m \<le> t" "walk Ap Aj m j w"
      by (auto simp: within_steps_iff)
    then have "walk Ap Aj (Suc m) i w" by auto
    then show ?thesis using j(2) by (intro within_stepsI [of "Suc m"]) simp_all
  qed
qed

lemma within_steps_0: "within_steps Ap Aj 0 i w \<longleftrightarrow> w = i"
  by (auto simp: within_steps_iff)

lemma within_steps_self: "within_steps Ap Aj k i i"
  by (intro within_stepsI [of 0]) simp_all

lemma walk_sym:
  assumes wf: "csr_wf n Ap Aj" and sym: "csr_symmetric n Ap Aj"
  shows "u < n \<Longrightarrow> walk Ap Aj m u v \<Longrightarrow> walk Ap Aj m v u"
proof (induction m arbitrary: u)
  case 0
  then show ?case by simp
next
  case (Suc m)
  from Suc.prems(2) obtain w where w: "w \<in> set (nbrs Ap Aj u)" "walk Ap Aj m w v" by auto
  have wn: "w < n" by (rule nbrs_in_range [OF wf Suc.prems(1) w(1)])
  have "walk Ap Aj m v w" by (rule Suc.IH [OF wn w(2)])
  moreover have "u \<in> set (nbrs Ap Aj w)" by (rule nbrs_sym [OF sym Suc.prems(1) w(1)])
  ultimately show ?case using walk_snoc by blast
qed

lemma within_steps_sym:
  assumes "csr_wf n Ap Aj" and "csr_symmetric n Ap Aj" and "u < n" and "within_steps Ap Aj k u v"
  shows "within_steps Ap Aj k v u"
  using assms(4) walk_sym [OF assms(1,2,3)] by (auto simp: within_steps_iff)

lemma propagate_swap_best:
  assumes wf: "csr_wf n Ap Aj" and bb: "ball_best n Ap Aj base t s"
  shows "ball_best n Ap Aj base (Suc t) (propagate_swap n Ap Aj s) \<and>
         mk_active (propagate_swap n Ap Aj s) = mk_active s \<and>
         mk_x (propagate_swap n Ap Aj s) = mk_x s"
proof -
  obtain ok ov where r: "csr_propagate_max n Ap Aj (mk_i_keys s) (mk_o_keys s) (mk_i_vals s) (mk_o_vals s) = (ok, ov)"
    by (cases "csr_propagate_max n Ap Aj (mk_i_keys s) (mk_o_keys s) (mk_i_vals s) (mk_o_vals s)")
  have s': "propagate_swap n Ap Aj s = s\<lparr>mk_i_keys := ok, mk_o_keys := mk_i_keys s, mk_i_vals := ov, mk_o_vals := mk_i_vals s\<rparr>"
    by (simp add: propagate_swap_def r)
  have len: "length (mk_i_keys s) = n" "length (mk_i_vals s) = n" "length (mk_o_keys s) = n" "length (mk_o_vals s) = n"
    and kn: "\<And>i. i < n \<Longrightarrow> mk_i_keys s ! i < n"
    and kin: "\<And>i. i < n \<Longrightarrow> within_steps Ap Aj t i (mk_i_keys s ! i)"
    and cons: "\<forall>i < n. mk_i_vals s ! i = base (mk_i_keys s ! i)"
    and best: "\<And>i w. i < n \<Longrightarrow> within_steps Ap Aj t i w \<Longrightarrow> better base (mk_i_keys s ! i) w"
    using bb by (simp_all add: ball_best_def)
  from csr_propagate_max_best [OF wf len cons r]
  have l: "length ok = n" "length ov = n"
    and ovb: "\<And>i. i < n \<Longrightarrow> ov ! i = base (ok ! i)"
    and src: "\<And>i. i < n \<Longrightarrow> ok ! i = mk_i_keys s ! i \<or> (\<exists>j \<in> set (nbrs Ap Aj i). ok ! i = mk_i_keys s ! j)"
    and b0: "\<And>i. i < n \<Longrightarrow> better base (ok ! i) (mk_i_keys s ! i)"
    and bj: "\<And>i j. i < n \<Longrightarrow> j \<in> set (nbrs Ap Aj i) \<Longrightarrow> better base (ok ! i) (mk_i_keys s ! j)"
    by simp_all
  have step: "ok ! i < n \<and> within_steps Ap Aj (Suc t) i (ok ! i) \<and> ov ! i = base (ok ! i) \<and>
        (\<forall>w. within_steps Ap Aj (Suc t) i w \<longrightarrow> better base (ok ! i) w)" if i: "i < n" for i
  proof -
    from src [OF i] have 1: "ok ! i < n \<and> within_steps Ap Aj (Suc t) i (ok ! i)"
    proof
      assume e: "ok ! i = mk_i_keys s ! i"
      then show ?thesis using kn [OF i] kin [OF i] by (simp add: within_steps_Suc)
    next
      assume "\<exists>j \<in> set (nbrs Ap Aj i). ok ! i = mk_i_keys s ! j"
      then obtain j where j: "j \<in> set (nbrs Ap Aj i)" "ok ! i = mk_i_keys s ! j" by blast
      have jn: "j < n" by (rule nbrs_in_range [OF wf i j(1)])
      show ?thesis using kn [OF jn] kin [OF jn] j by (auto simp: within_steps_Suc)
    qed
    have 2: "better base (ok ! i) w" if "within_steps Ap Aj (Suc t) i w" for w
    proof -
      from that consider "within_steps Ap Aj t i w" | j where "j \<in> set (nbrs Ap Aj i)" "within_steps Ap Aj t j w"
        by (auto simp: within_steps_Suc)
      then show ?thesis
      proof cases
        case 1
        show ?thesis by (rule better_trans [OF b0 [OF i] best [OF i 1]])
      next
        case 2
        have jn: "j < n" by (rule nbrs_in_range [OF wf i 2(1)])
        show ?thesis by (rule better_trans [OF bj [OF i 2(1)] best [OF jn 2(2)]])
      qed
    qed
    show ?thesis using 1 2 ovb [OF i] by blast
  qed
  have "ball_best n Ap Aj base (Suc t) (propagate_swap n Ap Aj s)"
    unfolding ball_best_def s' using l len step by simp
  then show ?thesis by (simp add: s')
qed

lemma propagate_funpow_best:
  assumes wf: "csr_wf n Ap Aj" and bb: "ball_best n Ap Aj base 0 s"
  shows "ball_best n Ap Aj base t ((propagate_swap n Ap Aj ^^ t) s) \<and>
         mk_active ((propagate_swap n Ap Aj ^^ t) s) = mk_active s \<and>
         mk_x ((propagate_swap n Ap Aj ^^ t) s) = mk_x s"
proof (induction t)
  case 0
  show ?case using bb by simp
next
  case (Suc t)
  then show ?case using propagate_swap_best [OF wf, of base t "(propagate_swap n Ap Aj ^^ t) s"] by simp
qed

lemma ball_best_init:
  assumes "length (mk_i_keys s) = n" "length (mk_i_vals s) = n" "length (mk_o_keys s) = n"
    "length (mk_o_vals s) = n" "\<forall>i < n. mk_i_keys s ! i = i"
  shows "ball_best n Ap Aj (\<lambda>w. mk_i_vals s ! w) 0 s"
  unfolding ball_best_def using assms by (simp add: within_steps_0 better_refl)

section \<open>Selection and retirement\<close>


lemma misk_select_fold:
  "distinct ns \<Longrightarrow> \<forall>i \<in> set ns. i < n \<Longrightarrow>
   length (mk_x s) = n \<Longrightarrow> length (mk_i_keys s) = n \<Longrightarrow> length (mk_i_vals s) = n \<Longrightarrow>
   mk_active (fold misk_select ns s) = mk_active s \<and>
   mk_o_keys (fold misk_select ns s) = mk_o_keys s \<and>
   mk_o_vals (fold misk_select ns s) = mk_o_vals s \<and>
   length (mk_x (fold misk_select ns s)) = n \<and>
   length (mk_i_keys (fold misk_select ns s)) = n \<and>
   length (mk_i_vals (fold misk_select ns s)) = n \<and>
   (\<forall>i < n.
      mk_x (fold misk_select ns s) ! i =
        (if i \<in> set ns \<and> mk_i_keys s ! i = i \<and> mk_active s ! i then 1 else mk_x s ! i) \<and>
      mk_i_keys (fold misk_select ns s) ! i = (if i \<in> set ns then i else mk_i_keys s ! i) \<and>
      mk_i_vals (fold misk_select ns s) ! i =
        (if i \<in> set ns then real_of_int (mk_x (fold misk_select ns s) ! i) else mk_i_vals s ! i))"
proof (induction ns arbitrary: s)
  case Nil
  then show ?case by simp
next
  case (Cons a ns)
  let ?s1 = "misk_select a s"
  have a: "a < n" "a \<notin> set ns" using Cons.prems(1,2) by simp_all
  have f1: "mk_active ?s1 = mk_active s" "mk_o_keys ?s1 = mk_o_keys s" "mk_o_vals ?s1 = mk_o_vals s"
    "length (mk_x ?s1) = n" "length (mk_i_keys ?s1) = n" "length (mk_i_vals ?s1) = n"
    using Cons.prems(3,4,5) by (simp_all add: misk_select_def Let_def)
  have at: "mk_x ?s1 ! a = (if mk_i_keys s ! a = a \<and> mk_active s ! a then 1 else mk_x s ! a)"
    "mk_i_keys ?s1 ! a = a" "mk_i_vals ?s1 ! a = real_of_int (mk_x ?s1 ! a)"
    using Cons.prems(3,4,5) a(1) by (simp_all add: misk_select_def Let_def)
  have other: "mk_x ?s1 ! i = mk_x s ! i" "mk_i_keys ?s1 ! i = mk_i_keys s ! i" "mk_i_vals ?s1 ! i = mk_i_vals s ! i"
    if "i \<noteq> a" for i
    using that by (simp_all add: misk_select_def Let_def)
  have IH: "mk_active (fold misk_select ns ?s1) = mk_active ?s1 \<and>
   mk_o_keys (fold misk_select ns ?s1) = mk_o_keys ?s1 \<and>
   mk_o_vals (fold misk_select ns ?s1) = mk_o_vals ?s1 \<and>
   length (mk_x (fold misk_select ns ?s1)) = n \<and>
   length (mk_i_keys (fold misk_select ns ?s1)) = n \<and>
   length (mk_i_vals (fold misk_select ns ?s1)) = n \<and>
   (\<forall>i < n.
      mk_x (fold misk_select ns ?s1) ! i =
        (if i \<in> set ns \<and> mk_i_keys ?s1 ! i = i \<and> mk_active ?s1 ! i then 1 else mk_x ?s1 ! i) \<and>
      mk_i_keys (fold misk_select ns ?s1) ! i = (if i \<in> set ns then i else mk_i_keys ?s1 ! i) \<and>
      mk_i_vals (fold misk_select ns ?s1) ! i =
        (if i \<in> set ns then real_of_int (mk_x (fold misk_select ns ?s1) ! i) else mk_i_vals ?s1 ! i))"
    using Cons.prems(1,2) f1 by (intro Cons.IH) simp_all
  have pt: "mk_x (fold misk_select ns ?s1) ! i =
        (if i \<in> set (a # ns) \<and> mk_i_keys s ! i = i \<and> mk_active s ! i then 1 else mk_x s ! i) \<and>
      mk_i_keys (fold misk_select ns ?s1) ! i = (if i \<in> set (a # ns) then i else mk_i_keys s ! i) \<and>
      mk_i_vals (fold misk_select ns ?s1) ! i =
        (if i \<in> set (a # ns) then real_of_int (mk_x (fold misk_select ns ?s1) ! i) else mk_i_vals s ! i)"
    if i: "i < n" for i
  proof (cases "i = a")
    case True
    then show ?thesis using IH i a(2) at f1(1) by simp
  next
    case False
    then show ?thesis using IH i other [OF False] f1(1) by simp
  qed
  have e: "fold misk_select (a # ns) s = fold misk_select ns ?s1" by simp
  have A: "mk_active (fold misk_select ns ?s1) = mk_active s"
    "mk_o_keys (fold misk_select ns ?s1) = mk_o_keys s"
    "mk_o_vals (fold misk_select ns ?s1) = mk_o_vals s"
    "length (mk_x (fold misk_select ns ?s1)) = n"
    "length (mk_i_keys (fold misk_select ns ?s1)) = n"
    "length (mk_i_vals (fold misk_select ns ?s1)) = n"
    using IH f1 by simp_all
  show ?case unfolding e using A pt by blast
qed

lemma misk_retire_fold:
  "distinct ns \<Longrightarrow> \<forall>i \<in> set ns. i < n \<Longrightarrow>
   length (mk_active s) = n \<Longrightarrow> length (mk_i_keys s) = n \<Longrightarrow> length (mk_i_vals s) = n \<Longrightarrow>
   mk_x (fst (fold (misk_retire y) ns (s, wl))) = mk_x s \<and>
   mk_o_keys (fst (fold (misk_retire y) ns (s, wl))) = mk_o_keys s \<and>
   mk_o_vals (fst (fold (misk_retire y) ns (s, wl))) = mk_o_vals s \<and>
   length (mk_active (fst (fold (misk_retire y) ns (s, wl)))) = n \<and>
   length (mk_i_keys (fst (fold (misk_retire y) ns (s, wl)))) = n \<and>
   length (mk_i_vals (fst (fold (misk_retire y) ns (s, wl)))) = n \<and>
   (\<forall>i < n.
      mk_active (fst (fold (misk_retire y) ns (s, wl))) ! i =
        (if i \<in> set ns \<and> mk_i_vals s ! i = 1 then False else mk_active s ! i) \<and>
      mk_i_keys (fst (fold (misk_retire y) ns (s, wl))) ! i = (if i \<in> set ns then i else mk_i_keys s ! i))"
proof (induction ns arbitrary: s wl)
  case Nil
  then show ?case by simp
next
  case (Cons a ns)
  obtain s1 wl1 where r: "misk_retire y a (s, wl) = (s1, wl1)" by (cases "misk_retire y a (s, wl)")
  have a: "a < n" "a \<notin> set ns" using Cons.prems(1,2) by simp_all
  have f1: "mk_x s1 = mk_x s" "mk_o_keys s1 = mk_o_keys s" "mk_o_vals s1 = mk_o_vals s"
    "length (mk_active s1) = n" "length (mk_i_keys s1) = n" "length (mk_i_vals s1) = n"
    using r Cons.prems(3,4,5) by (auto simp: misk_retire_def split: if_splits)
  have at: "mk_active s1 ! a = (if mk_i_vals s ! a = 1 then False else mk_active s ! a)" "mk_i_keys s1 ! a = a"
    using r Cons.prems(3,4,5) a(1) by (auto simp: misk_retire_def split: if_splits)
  have other: "mk_active s1 ! i = mk_active s ! i" "mk_i_keys s1 ! i = mk_i_keys s ! i" "mk_i_vals s1 ! i = mk_i_vals s ! i"
    if "i \<noteq> a" for i
    using r that by (auto simp: misk_retire_def split: if_splits)
  have rest: "fold (misk_retire y) (a # ns) (s, wl) = fold (misk_retire y) ns (s1, wl1)"
    using r by simp
  let ?t = "fst (fold (misk_retire y) ns (s1, wl1))"
  have IH: "mk_x ?t = mk_x s1 \<and> mk_o_keys ?t = mk_o_keys s1 \<and> mk_o_vals ?t = mk_o_vals s1 \<and>
   length (mk_active ?t) = n \<and> length (mk_i_keys ?t) = n \<and> length (mk_i_vals ?t) = n \<and>
   (\<forall>i < n.
      mk_active ?t ! i = (if i \<in> set ns \<and> mk_i_vals s1 ! i = 1 then False else mk_active s1 ! i) \<and>
      mk_i_keys ?t ! i = (if i \<in> set ns then i else mk_i_keys s1 ! i))"
    using Cons.prems(1,2) f1 by (intro Cons.IH) simp_all
  have pt: "mk_active ?t ! i = (if i \<in> set (a # ns) \<and> mk_i_vals s ! i = 1 then False else mk_active s ! i) \<and>
      mk_i_keys ?t ! i = (if i \<in> set (a # ns) then i else mk_i_keys s ! i)" if i: "i < n" for i
  proof (cases "i = a")
    case True
    then show ?thesis using IH i a(2) at by simp
  next
    case False
    then show ?thesis using IH i other [OF False] by simp
  qed
  have A: "mk_x ?t = mk_x s" "mk_o_keys ?t = mk_o_keys s" "mk_o_vals ?t = mk_o_vals s"
    "length (mk_active ?t) = n" "length (mk_i_keys ?t) = n" "length (mk_i_vals ?t) = n"
    using IH f1 by simp_all
  show ?case unfolding rest using A pt by blast
qed

section \<open>Separation of the distance-k independent set\<close>


lemma misk_round_inv:
  assumes wf: "csr_wf n Ap Aj" and sym: "csr_symmetric n Ap Aj"
    and inv: "misk_inv n Ap Aj k s"
    and r: "misk_round n Ap Aj k y s = (s', wl)"
  shows "misk_inv n Ap Aj k s'"
proof -
  have len: "length (mk_active s) = n" "length (mk_x s) = n" "length (mk_i_keys s) = n"
    "length (mk_i_vals s) = n" "length (mk_o_keys s) = n" "length (mk_o_vals s) = n"
    and kid: "\<forall>i < n. mk_i_keys s ! i = i"
    and x01: "\<And>i. i < n \<Longrightarrow> mk_x s ! i = 0 \<or> mk_x s ! i = 1"
    and ret: "\<And>u v. u < n \<Longrightarrow> v < n \<Longrightarrow> mk_x s ! u = 1 \<Longrightarrow> within_steps Ap Aj k v u \<Longrightarrow> \<not> mk_active s ! v"
    and sep: "\<And>u v. u < n \<Longrightarrow> v < n \<Longrightarrow> u \<noteq> v \<Longrightarrow> mk_x s ! u = 1 \<Longrightarrow> mk_x s ! v = 1 \<Longrightarrow>
               \<not> within_steps Ap Aj k u v"
    using inv by (auto simp: misk_inv_def k_separated_def)
  define base0 where "base0 = (\<lambda>w. mk_i_vals s ! w)"
  define s1 where "s1 = (propagate_swap n Ap Aj ^^ k) s"
  define s2 where "s2 = fold misk_select [0..<n] s1"
  define base2 where "base2 = (\<lambda>w. mk_i_vals s2 ! w)"
  define s3 where "s3 = (propagate_swap n Ap Aj ^^ k) s2"
  have s': "s' = fst (fold (misk_retire y) [0..<n] (s3, False))"
    using r by (simp add: misk_round_def Let_def s1_def s2_def s3_def)
  \<comment> \<open>first propagation\<close>
  have bb0: "ball_best n Ap Aj base0 0 s"
    unfolding base0_def by (rule ball_best_init [OF len(3,4,5,6) kid])
  from propagate_funpow_best [OF wf bb0, of k]
  have bb1: "ball_best n Ap Aj base0 k s1" and act1: "mk_active s1 = mk_active s" and x1: "mk_x s1 = mk_x s"
    by (simp_all add: s1_def)
  have l1: "length (mk_i_keys s1) = n" "length (mk_i_vals s1) = n" "length (mk_o_keys s1) = n" "length (mk_o_vals s1) = n"
    and best1: "\<And>i w. i < n \<Longrightarrow> within_steps Ap Aj k i w \<Longrightarrow> better base0 (mk_i_keys s1 ! i) w"
    using bb1 by (simp_all add: ball_best_def)
  \<comment> \<open>selection\<close>
  have lx1: "length (mk_x s1) = n" using x1 len(2) by simp
  from misk_select_fold [of "[0..<n]" n s1, OF _ _ lx1 l1(1,2)]
  have act2: "mk_active s2 = mk_active s" and l2: "length (mk_x s2) = n" "length (mk_i_keys s2) = n"
    "length (mk_i_vals s2) = n" "length (mk_o_keys s2) = n" "length (mk_o_vals s2) = n"
    and x2: "\<And>i. i < n \<Longrightarrow> mk_x s2 ! i = (if mk_i_keys s1 ! i = i \<and> mk_active s ! i then 1 else mk_x s ! i)"
    and k2: "\<forall>i < n. mk_i_keys s2 ! i = i"
    and v2: "\<And>i. i < n \<Longrightarrow> mk_i_vals s2 ! i = real_of_int (mk_x s2 ! i)"
    using act1 x1 l1 by (simp_all add: s2_def)
  have x2_01: "mk_x s2 ! i = 0 \<or> mk_x s2 ! i = 1" if "i < n" for i
    using x2 [OF that] x01 [OF that] by auto
  have new: "mk_i_keys s1 ! i = i \<and> mk_active s ! i" if "i < n" "mk_x s2 ! i = 1" "mk_x s ! i \<noteq> 1" for i
    using x2 [OF that(1)] that(2,3) by (auto split: if_splits)
  have keep: "mk_x s2 ! i = 1" if "i < n" "mk_x s ! i = 1" for i
    using x2 [OF that(1)] that(2) by simp
  \<comment> \<open>second propagation\<close>
  have bb2: "ball_best n Ap Aj base2 0 s2"
    unfolding base2_def by (rule ball_best_init [OF l2(2,3,4,5) k2])
  from propagate_funpow_best [OF wf bb2, of k]
  have bb3: "ball_best n Ap Aj base2 k s3" and act3: "mk_active s3 = mk_active s" and x3: "mk_x s3 = mk_x s2"
    using act2 by (simp_all add: s3_def)
  have l3: "length (mk_i_keys s3) = n" "length (mk_i_vals s3) = n" "length (mk_o_keys s3) = n" "length (mk_o_vals s3) = n"
    and kn3: "\<And>i. i < n \<Longrightarrow> mk_i_keys s3 ! i < n"
    and v3: "\<And>i. i < n \<Longrightarrow> mk_i_vals s3 ! i = base2 (mk_i_keys s3 ! i)"
    and best3: "\<And>i w. i < n \<Longrightarrow> within_steps Ap Aj k i w \<Longrightarrow> better base2 (mk_i_keys s3 ! i) w"
    using bb3 by (simp_all add: ball_best_def)
  have seen: "mk_i_vals s3 ! v = 1" if v: "v < n" and u: "u < n" "mk_x s2 ! u = 1" "within_steps Ap Aj k v u" for u v
  proof -
    let ?m = "mk_i_keys s3 ! v"
    have mn: "?m < n" by (rule kn3 [OF v])
    have "better base2 ?m u" by (rule best3 [OF v u(3)])
    moreover have "base2 u = 1" using v2 [OF u(1)] u(2) by (simp add: base2_def)
    moreover have "base2 ?m = 0 \<or> base2 ?m = 1" using v2 [OF mn] x2_01 [OF mn] by (auto simp: base2_def)
    ultimately have "base2 ?m = 1" by (auto simp: better_def)
    then show ?thesis using v3 [OF v] by simp
  qed
  \<comment> \<open>retirement\<close>
  have la3: "length (mk_active s3) = n" using act3 len(1) by simp
  from misk_retire_fold [of "[0..<n]" n s3 y False, OF _ _ la3 l3(1,2)]
  have xf: "mk_x s' = mk_x s2" and lf: "length (mk_active s') = n" "length (mk_i_keys s') = n"
    "length (mk_i_vals s') = n" "length (mk_o_keys s') = n" "length (mk_o_vals s') = n"
    and actf: "\<And>i. i < n \<Longrightarrow> mk_active s' ! i = (if mk_i_vals s3 ! i = 1 then False else mk_active s ! i)"
    and kf: "\<forall>i < n. mk_i_keys s' ! i = i"
    using x3 act3 l3 by (simp_all add: s')
  \<comment> \<open>the invariant\<close>
  have ret': "\<not> mk_active s' ! v" if "u < n" "v < n" "mk_x s' ! u = 1" "within_steps Ap Aj k v u" for u v
    using seen [OF that(2,1) _ that(4)] that(3) actf [OF that(2)] xf by simp
  have sep': "\<not> within_steps Ap Aj k u v"
    if u: "u < n" and v: "v < n" and ne: "u \<noteq> v" and xu: "mk_x s2 ! u = 1" and xv: "mk_x s2 ! v = 1" for u v
  proof
    assume w: "within_steps Ap Aj k u v"
    have w': "within_steps Ap Aj k v u" by (rule within_steps_sym [OF wf sym u w])
    show False
    proof (cases "mk_x s ! u = 1")
      case True
      show ?thesis
      proof (cases "mk_x s ! v = 1")
        case True
        then show ?thesis using sep [OF u v ne \<open>mk_x s ! u = 1\<close>] w by simp
      next
        case False
        then have "mk_active s ! v" using new [OF v xv] by simp
        then show ?thesis using ret [OF u v True w'] by simp
      qed
    next
      case False
      then have nu: "mk_i_keys s1 ! u = u" "mk_active s ! u" using new [OF u xu] by simp_all
      show ?thesis
      proof (cases "mk_x s ! v = 1")
        case True
        then show ?thesis using ret [OF v u True w] nu(2) by simp
      next
        case False
        then have nv: "mk_i_keys s1 ! v = v" using new [OF v xv] by simp
        have "better base0 u v" using best1 [OF u w] nu(1) by simp
        moreover have "better base0 v u" using best1 [OF v w'] nv by simp
        ultimately show ?thesis using better_antisym ne by blast
      qed
    qed
  qed
  show ?thesis
    unfolding misk_inv_def k_separated_def xf
    using lf l2(1) kf x2_01 ret' [unfolded xf] sep' by auto
qed

lemma misk_loop_separated:
  assumes wf: "csr_wf n Ap Aj" and sym: "csr_symmetric n Ap Aj"
    and ret: "misk_loop n Ap Aj k y max_iters iter s = Some x'"
    and inv: "misk_inv n Ap Aj k s"
  shows "k_separated n Ap Aj k x'"
proof -
  let ?P = "\<lambda>n' Ap' Aj' k' (y' :: real list) (mi :: int) (it :: int) s x'.
      n' = n \<and> Ap' = Ap \<and> Aj' = Aj \<and> k' = k \<and> misk_inv n Ap Aj k s \<longrightarrow> k_separated n Ap Aj k x'"
  have "?P n Ap Aj k y max_iters iter s x'"
  proof (rule misk_loop.raw_induct [where P = ?P, OF _ ret])
    fix f n' Ap' Aj' k' and y' :: "real list" and mi it :: int and s x'
    assume IH: "\<And>n' Ap' Aj' k' y' mi it s x'. f n' Ap' Aj' k' y' mi it s = Some x' \<Longrightarrow> ?P n' Ap' Aj' k' y' mi it s x'"
      and eq: "(if mi = -1 \<or> it < mi then
                  (case misk_round n' Ap' Aj' k' y' s of
                     (s', work_left) \<Rightarrow>
                       if \<not> work_left then Some (mk_x s')
                       else f n' Ap' Aj' k' y' mi (it + 1) s')
                else Some (mk_x s)) = Some x'"
    show "?P n' Ap' Aj' k' y' mi it s x'"
    proof (intro impI, elim conjE)
      assume a: "n' = n" "Ap' = Ap" "Aj' = Aj" "k' = k" and i: "misk_inv n Ap Aj k s"
      show "k_separated n Ap Aj k x'"
      proof (cases "mi = -1 \<or> it < mi")
        case False
        then have "x' = mk_x s" using eq by simp
        then show ?thesis using i by (simp add: misk_inv_def)
      next
        case True
        obtain s1 wl where rd: "misk_round n Ap Aj k y' s = (s1, wl)" by (cases "misk_round n Ap Aj k y' s")
        have i1: "misk_inv n Ap Aj k s1" by (rule misk_round_inv [OF wf sym i rd])
        show ?thesis
        proof (cases wl)
          case False
          then have "x' = mk_x s1" using eq True rd a by simp
          then show ?thesis using i1 by (simp add: misk_inv_def)
        next
          case wl: True
          then have "f n Ap Aj k y' mi (it + 1) s1 = Some x'" using eq True rd a by simp
          from IH [OF this] i1 show ?thesis by simp
        qed
      qed
    qed
  qed
  then show ?thesis using inv by simp
qed

lemma misk_inv_init:
  assumes "length x = n"
  shows "misk_inv n Ap Aj k (misk_init n x y)"
  using assms by (simp add: misk_inv_def misk_init_def fill_rows_def k_separated_def)

text \<open>
  Claim C9. On a symmetric graph, for every \<open>k\<close>, every \<open>y\<close> and every \<open>max_iters\<close>
  (so for \<open>-1\<close>), when \<^verbatim>\<open>maximal_independent_set_k_parallel\<close> returns, two distinct
  vertices with \<open>x = 1\<close> are more than \<open>k\<close> steps apart.
\<close>

theorem mis_k_promoted_separated:
  assumes "csr_wf n Ap Aj" and "csr_symmetric n Ap Aj" and "length x = n"
    and "maximal_independent_set_k_parallel n Ap Aj k x y max_iters = Some x'"
  shows "k_separated n Ap Aj k x'"
  using misk_loop_separated [OF assms(1,2) assms(4) [unfolded maximal_independent_set_k_parallel_def]
      misk_inv_init [OF assms(3)]] .

theorem mis_k_promoted_separated_witness:
  "csr_wf 5 path5_Ap path5_Aj \<and> csr_symmetric 5 path5_Ap path5_Aj \<and> length [7, 7, 7, 7, 7 :: int] = 5 \<and>
   maximal_independent_set_k_parallel 5 path5_Ap path5_Aj 2 [7, 7, 7, 7, 7] [3 / 10, 1 / 10, 4 / 10, 15 / 100, 9 / 10] (-1)
     = Some [1, 0, 0, 0, 1] \<and>
   k_separated 5 path5_Ap path5_Aj 2 [1, 0, 0, 0, 1]"
proof -
  have l: "length [7, 7, 7, 7, 7 :: int] = 5" by simp
  have e: "maximal_independent_set_k_parallel 5 path5_Ap path5_Aj 2 [7, 7, 7, 7, 7]
             [3 / 10, 1 / 10, 4 / 10, 15 / 100, 9 / 10] (-1) = Some [1, 0, 0, 0, 1]"
    by code_simp
  show ?thesis
    using path5_wf path5_symmetric l e mis_k_promoted_separated [OF path5_wf path5_symmetric l e] by blast
qed

section \<open>Return of the distance-k kernel\<close>

lemma better_total: "better base a b \<or> better base b a"
  by (auto simp: better_def)

lemma better_greatest:
  "finite A \<Longrightarrow> A \<noteq> {} \<Longrightarrow> \<exists>m \<in> A. \<forall>w \<in> A. better base m w"
proof (induction A rule: finite_induct)
  case empty
  then show ?case by simp
next
  case (insert a A)
  show ?case
  proof (cases "A = {}")
    case True
    then show ?thesis by (simp add: better_refl)
  next
    case False
    then obtain m where m: "m \<in> A" "\<forall>w \<in> A. better base m w" using insert.IH by blast
    show ?thesis
    proof (cases "better base m a")
      case True
      then show ?thesis using m by blast
    next
      case False
      then have am: "better base a m" using better_total [of base m a] by simp
      have "\<forall>w \<in> A. better base a w" using m(2) am better_trans by blast
      then show ?thesis using better_refl [of base a] by blast
    qed
  qed
qed

lemma misk_retire_fold_vals:
  "distinct ns \<Longrightarrow> \<forall>i \<in> set ns. i < n \<Longrightarrow> length (mk_i_vals s) = n \<Longrightarrow>
   (\<forall>i < n. mk_i_vals (fst (fold (misk_retire y) ns (s, wl))) ! i =
      (if i \<in> set ns then (if mk_i_vals s ! i = 1 then -1 else y ! i) else mk_i_vals s ! i)) \<and>
   snd (fold (misk_retire y) ns (s, wl)) = (wl \<or> (\<exists>i \<in> set ns. mk_i_vals s ! i \<noteq> 1))"
proof (induction ns arbitrary: s wl)
  case Nil
  then show ?case by simp
next
  case (Cons a ns)
  obtain s1 wl1 where r: "misk_retire y a (s, wl) = (s1, wl1)" by (cases "misk_retire y a (s, wl)")
  have a: "a < n" "a \<notin> set ns" using Cons.prems(1,2) by simp_all
  have l1: "length (mk_i_vals s1) = n"
    using r Cons.prems(3) by (auto simp: misk_retire_def split: if_splits)
  have at: "mk_i_vals s1 ! a = (if mk_i_vals s ! a = 1 then -1 else y ! a)"
    using r Cons.prems(3) a(1) by (auto simp: misk_retire_def split: if_splits)
  have wl1: "wl1 = (wl \<or> mk_i_vals s ! a \<noteq> 1)"
    using r by (auto simp: misk_retire_def split: if_splits)
  have other: "mk_i_vals s1 ! i = mk_i_vals s ! i" if "i \<noteq> a" for i
    using r that by (auto simp: misk_retire_def split: if_splits)
  have rest: "fold (misk_retire y) (a # ns) (s, wl) = fold (misk_retire y) ns (s1, wl1)"
    using r by simp
  let ?t = "fold (misk_retire y) ns (s1, wl1)"
  have IH: "(\<forall>i < n. mk_i_vals (fst ?t) ! i =
      (if i \<in> set ns then (if mk_i_vals s1 ! i = 1 then -1 else y ! i) else mk_i_vals s1 ! i)) \<and>
     snd ?t = (wl1 \<or> (\<exists>i \<in> set ns. mk_i_vals s1 ! i \<noteq> 1))"
    using Cons.prems(1,2) l1 by (intro Cons.IH) simp_all
  have pt: "mk_i_vals (fst ?t) ! i =
      (if i \<in> set (a # ns) then (if mk_i_vals s ! i = 1 then -1 else y ! i) else mk_i_vals s ! i)"
    if i: "i < n" for i
  proof (cases "i = a")
    case True
    then show ?thesis using IH i a(2) at by simp
  next
    case False
    then show ?thesis using IH i other [OF False] by simp
  qed
  have ex: "(\<exists>i \<in> set ns. mk_i_vals s1 ! i \<noteq> 1) = (\<exists>i \<in> set ns. mk_i_vals s ! i \<noteq> 1)"
    using other a(2) by (metis)
  have w: "snd ?t = (wl \<or> (\<exists>i \<in> set (a # ns). mk_i_vals s ! i \<noteq> 1))"
    using IH wl1 ex by auto
  show ?case unfolding rest using pt w by blast
qed

lemma misk_round_progress:
  assumes wf: "csr_wf n Ap Aj" and sym: "csr_symmetric n Ap Aj"
    and inv: "misk_inv n Ap Aj k s" and live: "misk_live n Ap Aj k y s"
    and ypos: "\<forall>i < n. -1 < y ! i"
    and r: "misk_round n Ap Aj k y s = (s', wl)"
  shows "misk_live n Ap Aj k y s' \<and>
         (wl \<longrightarrow> card {i. i < n \<and> mk_active s' ! i} < card {i. i < n \<and> mk_active s ! i})"
proof -
  have len: "length (mk_active s) = n" "length (mk_x s) = n" "length (mk_i_keys s) = n"
    "length (mk_i_vals s) = n" "length (mk_o_keys s) = n" "length (mk_o_vals s) = n"
    and kid: "\<forall>i < n. mk_i_keys s ! i = i"
    and x01: "\<And>i. i < n \<Longrightarrow> mk_x s ! i = 0 \<or> mk_x s ! i = 1"
    using inv by (auto simp: misk_inv_def)
  have vals0: "\<And>i. i < n \<Longrightarrow> mk_i_vals s ! i = (if mk_active s ! i then y ! i else -1)"
    and cov: "\<And>v. v < n \<Longrightarrow> \<not> mk_active s ! v \<Longrightarrow> \<exists>u < n. mk_x s ! u = 1 \<and> within_steps Ap Aj k v u"
    using live by (auto simp: misk_live_def)
  define base0 where "base0 = (\<lambda>w. mk_i_vals s ! w)"
  define s1 where "s1 = (propagate_swap n Ap Aj ^^ k) s"
  define s2 where "s2 = fold misk_select [0..<n] s1"
  define base2 where "base2 = (\<lambda>w. mk_i_vals s2 ! w)"
  define s3 where "s3 = (propagate_swap n Ap Aj ^^ k) s2"
  have fr: "fold (misk_retire y) [0..<n] (s3, False) = (s', wl)"
    using r by (simp add: misk_round_def Let_def s1_def s2_def s3_def)
  have s': "s' = fst (fold (misk_retire y) [0..<n] (s3, False))"
    and wl: "wl = snd (fold (misk_retire y) [0..<n] (s3, False))"
    using fr by simp_all
  \<comment> \<open>first propagation\<close>
  have bb0: "ball_best n Ap Aj base0 0 s"
    unfolding base0_def by (rule ball_best_init [OF len(3,4,5,6) kid])
  from propagate_funpow_best [OF wf bb0, of k]
  have bb1: "ball_best n Ap Aj base0 k s1" and act1: "mk_active s1 = mk_active s" and x1: "mk_x s1 = mk_x s"
    by (simp_all add: s1_def)
  have l1: "length (mk_i_keys s1) = n" "length (mk_i_vals s1) = n" "length (mk_o_keys s1) = n" "length (mk_o_vals s1) = n"
    and kn1: "\<And>i. i < n \<Longrightarrow> mk_i_keys s1 ! i < n"
    and best1: "\<And>i w. i < n \<Longrightarrow> within_steps Ap Aj k i w \<Longrightarrow> better base0 (mk_i_keys s1 ! i) w"
    using bb1 by (simp_all add: ball_best_def)
  \<comment> \<open>selection\<close>
  have lx1: "length (mk_x s1) = n" using x1 len(2) by simp
  from misk_select_fold [of "[0..<n]" n s1, OF _ _ lx1 l1(1,2)]
  have act2: "mk_active s2 = mk_active s" and l2: "length (mk_x s2) = n" "length (mk_i_keys s2) = n"
    "length (mk_i_vals s2) = n" "length (mk_o_keys s2) = n" "length (mk_o_vals s2) = n"
    and x2: "\<And>i. i < n \<Longrightarrow> mk_x s2 ! i = (if mk_i_keys s1 ! i = i \<and> mk_active s ! i then 1 else mk_x s ! i)"
    and k2: "\<forall>i < n. mk_i_keys s2 ! i = i"
    and v2: "\<And>i. i < n \<Longrightarrow> mk_i_vals s2 ! i = real_of_int (mk_x s2 ! i)"
    using act1 x1 l1 by (simp_all add: s2_def)
  have x2_01: "mk_x s2 ! i = 0 \<or> mk_x s2 ! i = 1" if "i < n" for i
    using x2 [OF that] x01 [OF that] by auto
  have keep: "mk_x s2 ! i = 1" if "i < n" "mk_x s ! i = 1" for i
    using x2 [OF that(1)] that(2) by simp
  \<comment> \<open>second propagation\<close>
  have bb2: "ball_best n Ap Aj base2 0 s2"
    unfolding base2_def by (rule ball_best_init [OF l2(2,3,4,5) k2])
  from propagate_funpow_best [OF wf bb2, of k]
  have bb3: "ball_best n Ap Aj base2 k s3" and act3: "mk_active s3 = mk_active s" and x3: "mk_x s3 = mk_x s2"
    using act2 by (simp_all add: s3_def)
  have l3: "length (mk_i_keys s3) = n" "length (mk_i_vals s3) = n" "length (mk_o_keys s3) = n" "length (mk_o_vals s3) = n"
    and kn3: "\<And>i. i < n \<Longrightarrow> mk_i_keys s3 ! i < n"
    and in3: "\<And>i. i < n \<Longrightarrow> within_steps Ap Aj k i (mk_i_keys s3 ! i)"
    and v3: "\<And>i. i < n \<Longrightarrow> mk_i_vals s3 ! i = base2 (mk_i_keys s3 ! i)"
    and best3: "\<And>i w. i < n \<Longrightarrow> within_steps Ap Aj k i w \<Longrightarrow> better base2 (mk_i_keys s3 ! i) w"
    using bb3 by (simp_all add: ball_best_def)
  have seen: "mk_i_vals s3 ! v = 1" if v: "v < n" and u: "u < n" "mk_x s2 ! u = 1" "within_steps Ap Aj k v u" for u v
  proof -
    let ?m = "mk_i_keys s3 ! v"
    have mn: "?m < n" by (rule kn3 [OF v])
    have "better base2 ?m u" by (rule best3 [OF v u(3)])
    moreover have "base2 u = 1" using v2 [OF u(1)] u(2) by (simp add: base2_def)
    moreover have "base2 ?m = 0 \<or> base2 ?m = 1" using v2 [OF mn] x2_01 [OF mn] by (auto simp: base2_def)
    ultimately have "base2 ?m = 1" by (auto simp: better_def)
    then show ?thesis using v3 [OF v] by simp
  qed
  have unseen: "mk_active s ! v" if v: "v < n" and nv: "mk_i_vals s3 ! v \<noteq> 1" for v
  proof (rule ccontr)
    assume "\<not> mk_active s ! v"
    from cov [OF v this] obtain u where u: "u < n" "mk_x s ! u = 1" "within_steps Ap Aj k v u" by blast
    show False using seen [OF v u(1) keep [OF u(1,2)] u(3)] nv by simp
  qed
  have source: "\<exists>u < n. mk_x s2 ! u = 1 \<and> within_steps Ap Aj k v u" if v: "v < n" and sv: "mk_i_vals s3 ! v = 1" for v
  proof -
    let ?m = "mk_i_keys s3 ! v"
    have mn: "?m < n" by (rule kn3 [OF v])
    have "real_of_int (mk_x s2 ! ?m) = 1" using v3 [OF v] sv v2 [OF mn] by (simp add: base2_def)
    then have "mk_x s2 ! ?m = 1" by simp
    then show ?thesis using mn in3 [OF v] by blast
  qed
  \<comment> \<open>retirement\<close>
  have la3: "length (mk_active s3) = n" using act3 len(1) by simp
  from misk_retire_fold [of "[0..<n]" n s3 y False, OF _ _ la3 l3(1,2)]
  have xf: "mk_x s' = mk_x s2"
    and actf: "\<And>i. i < n \<Longrightarrow> mk_active s' ! i = (if mk_i_vals s3 ! i = 1 then False else mk_active s ! i)"
    using x3 act3 l3 by (simp_all add: s')
  from misk_retire_fold_vals [of "[0..<n]" n s3 y False, OF _ _ l3(2)]
  have valf: "\<And>i. i < n \<Longrightarrow> mk_i_vals s' ! i = (if mk_i_vals s3 ! i = 1 then -1 else y ! i)"
    and wlf: "wl = (\<exists>i < n. mk_i_vals s3 ! i \<noteq> 1)"
    by (auto simp: s' wl)
  \<comment> \<open>the invariant\<close>
  have live1: "mk_i_vals s' ! i = (if mk_active s' ! i then y ! i else -1)" if i: "i < n" for i
    using valf [OF i] actf [OF i] unseen [OF i] by auto
  have live2: "\<exists>u < n. mk_x s' ! u = 1 \<and> within_steps Ap Aj k v u" if v: "v < n" and na: "\<not> mk_active s' ! v" for v
  proof (cases "mk_i_vals s3 ! v = 1")
    case True
    then show ?thesis using source [OF v] xf by simp
  next
    case False
    then show ?thesis using unseen [OF v False] actf [OF v] na by simp
  qed
  have L: "misk_live n Ap Aj k y s'"
    unfolding misk_live_def using live1 live2 by blast
  \<comment> \<open>progress\<close>
  have P: "card {i. i < n \<and> mk_active s' ! i} < card {i. i < n \<and> mk_active s ! i}" if wl
  proof -
    let ?A = "{i. i < n \<and> mk_active s ! i}"
    from that wlf obtain i0 where i0: "i0 < n" "mk_i_vals s3 ! i0 \<noteq> 1" by blast
    have "i0 \<in> ?A" using i0 unseen by simp
    then have ne: "?A \<noteq> {}" by blast
    have fin: "finite ?A" by simp
    from better_greatest [OF fin ne, of base0]
    obtain m where m: "m < n" "mk_active s ! m" and mx: "\<And>w. w < n \<Longrightarrow> mk_active s ! w \<Longrightarrow> better base0 m w"
      by blast
    let ?b = "mk_i_keys s1 ! m"
    have bn: "?b < n" by (rule kn1 [OF m(1)])
    have bm: "better base0 ?b m" by (rule best1 [OF m(1) within_steps_self])
    have b0m: "base0 m = y ! m" using vals0 [OF m(1)] m(2) by (simp add: base0_def)
    have bact: "mk_active s ! ?b"
    proof (rule ccontr)
      assume "\<not> mk_active s ! ?b"
      then have "base0 ?b = -1" using vals0 [OF bn] by (simp add: base0_def)
      then show False using bm b0m ypos m(1) by (auto simp: better_def)
    qed
    have "?b = m" using better_antisym [OF bm mx [OF bn bact]] .
    then have "mk_x s2 ! m = 1" using x2 [OF m(1)] m(2) by simp
    then have "mk_i_vals s3 ! m = 1" using seen [OF m(1) m(1) _ within_steps_self] by simp
    then have nm: "\<not> mk_active s' ! m" using actf [OF m(1)] by simp
    have sub: "{i. i < n \<and> mk_active s' ! i} \<subseteq> ?A" using actf by (auto split: if_splits)
    have "m \<in> ?A" "m \<notin> {i. i < n \<and> mk_active s' ! i}" using m nm by simp_all
    then have "{i. i < n \<and> mk_active s' ! i} \<subset> ?A" using sub by blast
    then show ?thesis by (rule psubset_card_mono [OF fin])
  qed
  show ?thesis using L P by blast
qed

lemma misk_loop_returns:
  assumes wf: "csr_wf n Ap Aj" and sym: "csr_symmetric n Ap Aj" and ypos: "\<forall>i < n. -1 < y ! i"
  shows "misk_inv n Ap Aj k s \<Longrightarrow> misk_live n Ap Aj k y s \<Longrightarrow>
         \<exists>x'. misk_loop n Ap Aj k y max_iters iter s = Some x'"
proof (induction "card {i. i < n \<and> mk_active s ! i}" arbitrary: s iter rule: less_induct)
  case less
  show ?case
  proof (cases "max_iters = -1 \<or> iter < max_iters")
    case False
    then show ?thesis by (subst misk_loop.simps) simp
  next
    case True
    obtain s1 wl where rd: "misk_round n Ap Aj k y s = (s1, wl)" by (cases "misk_round n Ap Aj k y s")
    have i1: "misk_inv n Ap Aj k s1" by (rule misk_round_inv [OF wf sym less.prems(1) rd])
    from misk_round_progress [OF wf sym less.prems(1,2) ypos rd]
    have l1: "misk_live n Ap Aj k y s1"
      and pr: "wl \<Longrightarrow> card {i. i < n \<and> mk_active s1 ! i} < card {i. i < n \<and> mk_active s ! i}"
      by simp_all
    show ?thesis
    proof (cases wl)
      case False
      then show ?thesis using True rd by (subst misk_loop.simps) simp
    next
      case wl: True
      from less.hyps [OF pr [OF wl] i1 l1, of "iter + 1"]
      obtain x' where "misk_loop n Ap Aj k y max_iters (iter + 1) s1 = Some x'" by blast
      then show ?thesis using True rd wl by (subst misk_loop.simps) simp
    qed
  qed
qed

lemma misk_live_init: "misk_live n Ap Aj k y (misk_init n x y)"
  by (simp add: misk_live_def misk_init_def)

text \<open>
  With every \<open>y ! i\<close> above \<open>-1\<close> (the values a retired vertex is given), each round that
  leaves work retires the best active vertex, so the kernel returns, whatever \<open>max_iters\<close>.
\<close>

lemma mis_k_parallel_returns:
  assumes "csr_wf n Ap Aj" and "csr_symmetric n Ap Aj" and "length x = n" and "\<forall>i < n. -1 < y ! i"
  shows "\<exists>x'. maximal_independent_set_k_parallel n Ap Aj k x y max_iters = Some x'"
  unfolding maximal_independent_set_k_parallel_def
  by (rule misk_loop_returns [OF assms(1,2,4) misk_inv_init [OF assms(3)] misk_live_init])

end
